theory Spec2Isabelle
  imports Main "HOL-Library.Word" "HOL-Library.Multiset"
begin

section \<open>Data model of the poker engine (src/main.cpp)\<close>

text \<open>
  The C++ type \<open>int\<close> is a 32-bit two's complement integer. Chip amounts, the pot, the
  current bet and the players' counters are modelled as \<open>32 word\<close>: \<open>+\<close> and \<open>-\<close> wrap
  around, \<open>sint\<close> reads the signed value, and \<open>\<le>s\<close> and \<open><s\<close> are the signed
  comparisons the C++ operators perform.
\<close>

type_synonym cint = "32 word"

record card =
  suit :: string
  rank :: string

text \<open>The default constructor \<open>Card()\<close>: both fields are the empty string.\<close>

definition Card0 :: card where
  "Card0 = \<lparr>suit = [], rank = []\<rparr>"

definition MAX_PLAYERS :: nat where
  "MAX_PLAYERS = 6"

definition MAX_CARDS :: nat where
  "MAX_CARDS = 52"

subsection \<open>Deck\<close>

text \<open>
  \<open>topCardIndex\<close> starts at 0 and is only ever incremented by \<open>dealCard\<close> (below
  \<open>MAX_CARDS\<close>) or set back to 0 by \<open>reset\<close>, so it is modelled as a natural number.
  The array \<open>cards[MAX_CARDS]\<close> is a list.
\<close>

record deck =
  cards :: "card list"
  topCardIndex :: nat

datatype error = ExhaustedDeck | Blocked | OutOfBounds

definition suits0 :: "string list" where
  "suits0 = [''Hearts'', ''Diamonds'', ''Clubs'', ''Spades'']"

definition ranks0 :: "string list" where
  "ranks0 = [''2'', ''3'', ''4'', ''5''] @ [''6'', ''7'', ''8'', ''9''] @
            [''10'', ''Jack'', ''Queen'', ''King'', ''Ace'']"

text \<open>The constructor \<open>Deck()\<close>: suits in the outer loop, ranks in the inner loop.\<close>

definition Deck0 :: deck where
  "Deck0 = \<lparr>cards = concat (map (\<lambda>s. map (\<lambda>r. \<lparr>suit = s, rank = r\<rparr>) ranks0) suits0),
            topCardIndex = 0\<rparr>"

text \<open>
  \<open>shuffle\<close> reorders the array by a permutation drawn from the random device; the
  permutation is a parameter of the model (position \<open>i\<close> receives the card that was at
  \<open>perm ! i\<close>). It leaves \<open>topCardIndex\<close> alone.
\<close>

definition shuffle :: "nat list \<Rightarrow> deck \<Rightarrow> deck" where
  "shuffle perm d = d\<lparr>cards := map (\<lambda>i. cards d ! i) perm\<rparr>"

text \<open>\<open>dealCard\<close> throws \<open>runtime_error("No cards left in the deck.")\<close> when the cursor
  is not below \<open>MAX_CARDS\<close>; the exception is the value \<open>Inl ExhaustedDeck\<close>.\<close>

definition dealCard :: "deck \<Rightarrow> error + (card \<times> deck)" where
  "dealCard d =
     (if topCardIndex d < MAX_CARDS
      then Inr (cards d ! topCardIndex d, d\<lparr>topCardIndex := topCardIndex d + 1\<rparr>)
      else Inl ExhaustedDeck)"

definition reset :: "deck \<Rightarrow> deck" where
  "reset d = d\<lparr>topCardIndex := 0\<rparr>"

text \<open>\<open>dealMany n d\<close>: \<open>n\<close> successive calls of \<open>dealCard\<close> with no reset in between;
  the cards dealt, in order, and the deck afterwards, or the exception of the first
  call that fails.\<close>

fun dealMany :: "nat \<Rightarrow> deck \<Rightarrow> error + (card list \<times> deck)" where
  "dealMany 0 d = Inr ([], d)"
| "dealMany (Suc n) d =
     (case dealCard d of
        Inl e \<Rightarrow> Inl e
      | Inr (c, d') \<Rightarrow>
          (case dealMany n d' of
             Inl e \<Rightarrow> Inl e
           | Inr (cs, d'') \<Rightarrow> Inr (c # cs, d'')))"

subsection \<open>Player and hand scorer\<close>

text \<open>The class \<open>Player\<close>; \<open>Card hand[2]\<close> is a pair of card slots.\<close>

record player =
  name :: string
  hand :: "card \<times> card"
  chips :: cint
  folded :: bool
  gamesWon :: cint
  handsPlayed :: cint
  handsWon :: cint

text \<open>The constructors \<open>Card(cardRank, cardSuit)\<close> and \<open>Player(playerName)\<close>.\<close>

definition Card2 :: "string \<Rightarrow> string \<Rightarrow> card" where
  "Card2 cardRank cardSuit = \<lparr>suit = cardSuit, rank = cardRank\<rparr>"

definition Player1 :: "string \<Rightarrow> player" where
  "Player1 playerName =
     \<lparr>name = playerName, hand = (Card0, Card0), chips = 1000, folded = False,
      gamesWon = 0, handsPlayed = 0, handsWon = 0\<rparr>"

text \<open>\<open>receiveCard\<close> stores the card only when \<open>index < 2\<close>; the callers pass 0 and 1.\<close>

definition receiveCard :: "card \<Rightarrow> nat \<Rightarrow> player \<Rightarrow> player" where
  "receiveCard c index p =
     (if index = 0 then p\<lparr>hand := (c, snd (hand p))\<rparr>
      else if index = 1 then p\<lparr>hand := (fst (hand p), c)\<rparr>
      else p)"

text \<open>
  \<open>evaluateHandStrength\<close> fills a \<open>map<string, int> rankCount\<close> and then adds up
  points per entry. The map is an association list with one entry per key;
  \<open>incr k m\<close> is \<open>rankCount[k]++\<close> (a missing key is created at 0 and incremented).
  The C++ map iterates in key order and this list in insertion order; the loop only
  adds to \<open>score\<close>, one entry at a time. The counters and the score are mathematical
  integers: they are bounded by the number of cards counted, at most 7 in a game.
  The array \<open>communityCards\<close> with its length \<open>communitySize\<close> is the list
  \<open>take communitySize communityCards\<close>.
\<close>

fun incr :: "string \<Rightarrow> (string \<times> int) list \<Rightarrow> (string \<times> int) list" where
  "incr k [] = [(k, 1)]"
| "incr k ((k', c) # m) = (if k = k' then (k', c + 1) # m else (k', c) # incr k m)"

definition tally :: "(string \<times> int) list \<Rightarrow> string list \<Rightarrow> (string \<times> int) list" where
  "tally m rs = foldl (\<lambda>m r. incr r m) m rs"

definition addScore :: "int \<Rightarrow> string \<times> int \<Rightarrow> int" where
  "addScore score entry =
     (if snd entry = 2 then score + 2
      else if snd entry = 3 then score + 6
      else if snd entry = 4 then score + 10
      else score)"

definition evaluateHandStrength :: "player \<Rightarrow> card list \<Rightarrow> nat \<Rightarrow> int" where
  "evaluateHandStrength p communityCards communitySize =
     (let rankCount1 = foldl (\<lambda>m c. incr (rank c) m) [] (take communitySize communityCards);
          rankCount = foldl (\<lambda>m c. incr (rank c) m) rankCount1 [fst (hand p), snd (hand p)]
      in foldl addScore 0 rankCount)"

text \<open>
  The scoring rule in the words of the specification: the ranks of the union of hole
  and visible community cards, the points of a frequency, and the sum over the distinct
  ranks.
\<close>

definition spec_points :: "nat \<Rightarrow> int" where
  "spec_points n = (if n = 2 then 2 else if n = 3 then 6 else if n = 4 then 10 else 0)"

definition spec_ranks :: "card \<times> card \<Rightarrow> card list \<Rightarrow> string list" where
  "spec_ranks h visible = map rank (visible @ [fst h, snd h])"

definition spec_score :: "card \<times> card \<Rightarrow> card list \<Rightarrow> int" where
  "spec_score h visible =
     (\<Sum>r \<leftarrow> remdups (spec_ranks h visible). spec_points (count_list (spec_ranks h visible) r))"

text \<open>How often rank \<open>r\<close> occurs among the hole cards of \<open>p\<close> and the first \<open>n\<close>
  community cards.\<close>

definition spec_count :: "player \<Rightarrow> card list \<Rightarrow> nat \<Rightarrow> string \<Rightarrow> nat" where
  "spec_count p cc n r = count_list (spec_ranks (hand p) (take n cc)) r"

text \<open>Sample players and boards: a player named \<open>nm\<close> holding ranks \<open>r1\<close> and
  \<open>r2\<close>, and community cards of given ranks.\<close>

definition holding :: "string \<Rightarrow> string \<Rightarrow> string \<Rightarrow> player" where
  "holding nm r1 r2 =
     receiveCard (Card2 r2 ''Spades'') 1 (receiveCard (Card2 r1 ''Hearts'') 0 (Player1 nm))"

definition board :: "string list \<Rightarrow> card list" where
  "board rs = map (\<lambda>r. Card2 r ''Clubs'') rs"

subsection \<open>Betting actions\<close>

text \<open>
  The reference parameters \<open>currentBet\<close>, \<open>pot\<close> and \<open>actionHistory\<close> of
  \<open>takeAction\<close> form the round state; it is passed in and returned updated.
\<close>

record round_state =
  currentBet :: cint
  pot :: cint
  actionHistory :: "string list"

text \<open>
  The environment. \<open>rand()\<close> returns the next value of a sequence fixed in advance
  (\<open>rnd\<close> at position \<open>rnd_pos\<close>). Standard input is the list of whitespace-separated
  tokens still to be read, one per line: \<open>Number n\<close> is a token that is the decimal
  numeral of \<open>n\<close>, \<open>Word w\<close> any other token. When the list is empty, \<open>cin\<close> is at
  end of file: every extraction fails, the variable read keeps its value, and the
  prompt loops of \<open>takeAction\<close> never end; that outcome is the value \<open>Inl Blocked\<close>.
\<close>

datatype token = Word string | Number int

record io =
  rnd :: "nat \<Rightarrow> nat"
  rnd_pos :: nat
  input :: "token list"

definition rand :: "io \<Rightarrow> nat \<times> io" where
  "rand e = (rnd e (rnd_pos e), e\<lparr>rnd_pos := rnd_pos e + 1\<rparr>)"

text \<open>\<open>to_string\<close> of a C++ \<open>int\<close>: the decimal numeral of its signed value.\<close>

fun natToString :: "nat \<Rightarrow> string" where
  "natToString n =
     (if n < 10 then [''0123456789'' ! n]
      else natToString (n div 10) @ [''0123456789'' ! (n mod 10)])"

declare natToString.simps [simp del]

definition to_string :: "cint \<Rightarrow> string" where
  "to_string v =
     (if sint v < 0 then CHR ''-'' # natToString (nat (- sint v)) else natToString (nat (sint v)))"

text \<open>\<open>name.find("Bot") != string::npos\<close>: the name contains \<open>Bot\<close> somewhere.\<close>

fun isPrefixOf :: "string \<Rightarrow> string \<Rightarrow> bool" where
  "isPrefixOf [] s = True"
| "isPrefixOf (a # as) [] = False"
| "isPrefixOf (a # as) (b # bs) = (a = b \<and> isPrefixOf as bs)"

fun findStr :: "string \<Rightarrow> string \<Rightarrow> bool" where
  "findStr pat [] = (pat = [])"
| "findStr pat (c # cs) = (isPrefixOf pat (c # cs) \<or> findStr pat cs)"

definition isBot :: "player \<Rightarrow> bool" where
  "isBot p = findStr ''Bot'' (name p)"

text \<open>
  The \<open>switch (action)\<close> of an automated player. \<open>min(50, chips)\<close> is a signed
  minimum; the additions and subtractions are those of \<open>int\<close>.
\<close>

definition botAction :: "nat \<Rightarrow> player \<Rightarrow> round_state \<Rightarrow> player \<times> round_state" where
  "botAction action p rs =
     (if action = 0 then
        (let betAmount = (if chips p <s 50 then chips p else 50) in
         if currentBet rs <s betAmount
         then (p\<lparr>chips := chips p - betAmount\<rparr>,
               rs\<lparr>currentBet := betAmount, pot := pot rs + betAmount,
                  actionHistory := actionHistory rs @
                    [name p @ '' raises to '' @ to_string betAmount @ '' chips.'']\<rparr>)
         else (p\<lparr>chips := chips p - betAmount\<rparr>,
               rs\<lparr>pot := pot rs + betAmount,
                  actionHistory := actionHistory rs @
                    [name p @ '' bets '' @ to_string betAmount @ '' chips.'']\<rparr>))
      else if action = 1 then
        (if currentBet rs \<le>s chips p
         then (p\<lparr>chips := chips p - currentBet rs\<rparr>,
               rs\<lparr>pot := pot rs + currentBet rs,
                  actionHistory := actionHistory rs @
                    [name p @ '' calls '' @ to_string (currentBet rs) @ '' chips.'']\<rparr>)
         else (p, rs\<lparr>actionHistory := actionHistory rs @ [name p @ '' checks.'']\<rparr>))
      else if action = 2 then
        (p\<lparr>folded := True\<rparr>,
         rs\<lparr>actionHistory := actionHistory rs @ [name p @ '' folds.'']\<rparr>)
      else if action = 3 then
        (if currentBet rs + 20 \<le>s chips p
         then (p\<lparr>chips := chips p - 20\<rparr>,
               rs\<lparr>currentBet := currentBet rs + 20, pot := pot rs + 20,
                  actionHistory := actionHistory rs @
                    [name p @ '' bluffs with '' @ to_string 20 @ '' chips.'']\<rparr>)
         else (p, rs))
      else (p, rs))"

text \<open>
  The inner prompt loop \<open>while (!(cin >> betAmount) || betAmount <= 0)\<close>: a token that
  is not a numeral, a numeral outside the range of \<open>int\<close> (the extraction fails) and a
  numeral that is not positive are all discarded and the prompt repeats.
\<close>

fun readAmount :: "token list \<Rightarrow> (cint \<times> token list) option" where
  "readAmount [] = None"
| "readAmount (Word w # ts) = readAmount ts"
| "readAmount (Number n # ts) =
     (if - (2 ^ 31) \<le> n \<and> n < 2 ^ 31 \<and> 0 < n then Some (word_of_int n, ts)
      else readAmount ts)"

text \<open>The \<open>do ... while\<close> loop of a human player: it repeats until one of the five
  action words has been read, and applies that action. A bet above the player's chips
  is capped to the chips; a call that the player cannot afford only prints a message.\<close>

fun humanAction :: "token list \<Rightarrow> player \<Rightarrow> round_state
    \<Rightarrow> error + (player \<times> round_state \<times> token list)" where
  "humanAction [] p rs = Inl Blocked"
| "humanAction (Number n # ts) p rs = humanAction ts p rs"
| "humanAction (Word action # ts) p rs =
     (if action = ''Bet'' \<or> action = ''Raise'' then
        (case readAmount ts of
           None \<Rightarrow> Inl Blocked
         | Some (amount, ts') \<Rightarrow>
             (let betAmount = (if chips p <s amount then chips p else amount) in
              Inr (p\<lparr>chips := chips p - betAmount\<rparr>,
                   rs\<lparr>currentBet := (if currentBet rs <s betAmount then betAmount
                                      else currentBet rs),
                      pot := pot rs + betAmount,
                      actionHistory := actionHistory rs @
                        [name p @ '' bets '' @ to_string betAmount @ '' chips.'']\<rparr>,
                   ts')))
      else if action = ''Call'' then
        (if currentBet rs \<le>s chips p
         then Inr (p\<lparr>chips := chips p - currentBet rs\<rparr>,
                   rs\<lparr>pot := pot rs + currentBet rs,
                      actionHistory := actionHistory rs @
                        [name p @ '' calls '' @ to_string (currentBet rs) @ '' chips.'']\<rparr>,
                   ts)
         else Inr (p, rs, ts))
      else if action = ''Check'' then
        Inr (p, rs\<lparr>actionHistory := actionHistory rs @ [name p @ '' checks.'']\<rparr>, ts)
      else if action = ''Fold'' then
        Inr (p\<lparr>folded := True\<rparr>,
             rs\<lparr>actionHistory := actionHistory rs @ [name p @ '' folds.'']\<rparr>, ts)
      else humanAction ts p rs)"

text \<open>
  \<open>Player::takeAction\<close>. A folded player returns at once. An automated player
  raises when its hand strength exceeds 5 and otherwise draws \<open>rand() % 4\<close>.
\<close>

definition chooseAction :: "io \<Rightarrow> card list \<Rightarrow> nat \<Rightarrow> player \<Rightarrow> nat \<times> io" where
  "chooseAction e communityCards communitySize p =
     (if 5 < evaluateHandStrength p communityCards communitySize then (0, e)
      else (let (r, e') = rand e in (r mod 4, e')))"

definition takeAction :: "io \<Rightarrow> round_state \<Rightarrow> card list \<Rightarrow> nat \<Rightarrow> player
    \<Rightarrow> error + (player \<times> round_state \<times> io)" where
  "takeAction e rs communityCards communitySize p =
     (if folded p then Inr (p, rs, e)
      else if isBot p then
        (let (action, e') = chooseAction e communityCards communitySize p;
             (p', rs') = botAction action p rs
         in Inr (p', rs', e'))
      else
        (case humanAction (input e) p rs of
           Inl err \<Rightarrow> Inl err
         | Inr (p', rs', ts) \<Rightarrow> Inr (p', rs', e\<lparr>input := ts\<rparr>)))"

text \<open>A sample environment: \<open>rand()\<close> always returns \<open>r\<close>, and standard input holds
  the tokens \<open>ts\<close>.\<close>

definition envConst :: "nat \<Rightarrow> token list \<Rightarrow> io" where
  "envConst r ts = \<lparr>rnd = (\<lambda>_. r), rnd_pos = 0, input = ts\<rparr>"

subsection \<open>Showdown\<close>

text \<open>
  \<open>showdown(players, numPlayers, communityCards, communitySize, pot)\<close>. The roster is
  the list of the first \<open>numPlayers\<close> array slots. The loop keeps \<open>bestScore\<close>
  (initially \<open>-1\<close>) and \<open>winner\<close> (initially the null pointer, here \<open>None\<close>, and
  otherwise the index of the slot pointed to); \<open>i\<close> is the index of the head of the
  players still to be visited. \<open>pot0\<close> is the value of the reference parameter
  \<open>pot\<close> on entry; its value on exit is returned. Console output and the delay are
  left out.
\<close>

fun findWinner :: "player list \<Rightarrow> card list \<Rightarrow> nat \<Rightarrow> nat \<Rightarrow> int \<Rightarrow> nat option \<Rightarrow> nat option" where
  "findWinner [] communityCards communitySize i bestScore winner = winner"
| "findWinner (p # ps) communityCards communitySize i bestScore winner =
     (if \<not> folded p then
        (let score = evaluateHandStrength p communityCards communitySize in
         if bestScore < score
         then findWinner ps communityCards communitySize (i + 1) score (Some i)
         else findWinner ps communityCards communitySize (i + 1) bestScore winner)
      else findWinner ps communityCards communitySize (i + 1) bestScore winner)"

definition award :: "cint \<Rightarrow> player \<Rightarrow> player" where
  "award amount p = p\<lparr>chips := chips p + amount, gamesWon := gamesWon p + 1, handsWon := handsWon p + 1\<rparr>"

definition showdown :: "player list \<Rightarrow> card list \<Rightarrow> nat \<Rightarrow> cint \<Rightarrow> player list \<times> cint" where
  "showdown players communityCards communitySize pot0 =
     (case findWinner players communityCards communitySize 0 (- 1) None of
        Some w \<Rightarrow> (players[w := award pot0 (players ! w)], 0)
      | None \<Rightarrow> (players, pot0))"

text \<open>
  The winner in the words of claim C1: player \<open>i\<close> is not folded and its score is
  strictly greater than the score of every earlier non-folded player; the claimed winner
  is the first such index.
\<close>

definition beatsEarlier :: "player list \<Rightarrow> card list \<Rightarrow> nat \<Rightarrow> nat \<Rightarrow> bool" where
  "beatsEarlier ps cc n i \<longleftrightarrow>
     i < length ps \<and> \<not> folded (ps ! i) \<and>
     (\<forall>j \<in> {..<i}. \<not> folded (ps ! j) \<longrightarrow>
        evaluateHandStrength (ps ! j) cc n < evaluateHandStrength (ps ! i) cc n)"

definition claimedWinner :: "player list \<Rightarrow> card list \<Rightarrow> nat \<Rightarrow> nat option" where
  "claimedWinner ps cc n = find (beatsEarlier ps cc n) [0 ..< length ps]"

text \<open>
  The invariant of the loop of \<open>showdown\<close> after the players \<open>pre\<close> have been
  visited: without a winner so far, every visited player is folded and \<open>bestScore\<close> is
  still \<open>-1\<close>; otherwise the winner is a visited non-folded player whose score is
  \<open>bestScore\<close>, strictly above every earlier non-folded score and at least every
  visited non-folded score.
\<close>

definition winnerInv :: "player list \<Rightarrow> card list \<Rightarrow> nat \<Rightarrow> int \<Rightarrow> nat option \<Rightarrow> bool" where
  "winnerInv pre cc n bestScore winner \<longleftrightarrow>
     (case winner of
        None \<Rightarrow> bestScore = - 1 \<and> (\<forall>j < length pre. folded (pre ! j))
      | Some w \<Rightarrow> w < length pre \<and> \<not> folded (pre ! w)
          \<and> bestScore = evaluateHandStrength (pre ! w) cc n
          \<and> (\<forall>j < w. \<not> folded (pre ! j) \<longrightarrow>
                evaluateHandStrength (pre ! j) cc n < evaluateHandStrength (pre ! w) cc n)
          \<and> (\<forall>j < length pre. \<not> folded (pre ! j) \<longrightarrow>
                evaluateHandStrength (pre ! j) cc n \<le> evaluateHandStrength (pre ! w) cc n))"

text \<open>Sample rosters: Ann holds no pair and Bob a pair of sevens; in the second roster
  both have folded.\<close>

definition rosterAB :: "player list" where
  "rosterAB = [holding ''Ann'' ''2'' ''9'', holding ''Bob'' ''7'' ''7'']"

definition rosterFolded :: "player list" where
  "rosterFolded = map (\<lambda>p. p\<lparr>folded := True\<rparr>) rosterAB"

subsection \<open>Merge sort of the roster\<close>

text \<open>
  \<open>merge(arr, left, mid, right)\<close> copies \<open>arr[left..mid]\<close> into \<open>L\<close> and
  \<open>arr[mid+1..right]\<close> into \<open>R\<close> and writes them back from position \<open>left\<close>. In
  \<open>mergeLoop\<close> the first two arguments are the parts of \<open>L\<close> and \<open>R\<close> not yet
  consumed (from \<open>i\<close> and \<open>j\<close> on) and \<open>k\<close> is the write position: the first
  equation is the loop \<open>while (i < n1 && j < n2)\<close>, the second and third are the two
  loops copying what remains. The indices are \<open>int\<close> as in the source; no index
  arithmetic of a sort of at most \<open>MAX_PLAYERS\<close> players overflows.
\<close>

fun mergeLoop :: "player list \<Rightarrow> player list \<Rightarrow> player list \<Rightarrow> nat \<Rightarrow> player list" where
  "mergeLoop (l # ls) (r # rs) arr k =
     (if chips r \<le>s chips l then mergeLoop ls (r # rs) (arr[k := l]) (k + 1)
      else mergeLoop (l # ls) rs (arr[k := r]) (k + 1))"
| "mergeLoop (l # ls) [] arr k = mergeLoop ls [] (arr[k := l]) (k + 1)"
| "mergeLoop [] (r # rs) arr k = mergeLoop [] rs (arr[k := r]) (k + 1)"
| "mergeLoop [] [] arr k = arr"

definition merge :: "player list \<Rightarrow> int \<Rightarrow> int \<Rightarrow> int \<Rightarrow> player list" where
  "merge arr left mid right =
     (let n1 = mid - left + 1;
          n2 = right - mid;
          L = take (nat n1) (drop (nat left) arr);
          R = take (nat n2) (drop (nat (mid + 1)) arr)
      in mergeLoop L R arr (nat left))"

function mergeSort :: "player list \<Rightarrow> int \<Rightarrow> int \<Rightarrow> player list" where
  "mergeSort arr left right =
     (if left < right then
        (let mid = left + (right - left) div 2 in
         merge (mergeSort (mergeSort arr left mid) (mid + 1) right) left mid right)
      else arr)"
  by pat_completeness auto
termination
  by (relation "measure (\<lambda>(arr, left, right). nat (right - left))") auto

declare mergeSort.simps [simp del]

text \<open>The call of the game loop: \<open>mergeSort(players, 0, numPlayers - 1)\<close> on a roster of
  \<open>numPlayers\<close> players.\<close>

definition sortRoster :: "player list \<Rightarrow> player list" where
  "sortRoster ps = mergeSort ps 0 (int (length ps) - 1)"

text \<open>The merge of two lists that \<open>mergeLoop\<close> writes into the array, and the order
  the sort aims at: chip counts (as signed integers) never increase along the list.\<close>

fun mergeLists :: "player list \<Rightarrow> player list \<Rightarrow> player list" where
  "mergeLists (l # ls) (r # rs) =
     (if chips r \<le>s chips l then l # mergeLists ls (r # rs) else r # mergeLists (l # ls) rs)"
| "mergeLists ls [] = ls"
| "mergeLists [] rs = rs"

definition chipsDescending :: "player list \<Rightarrow> bool" where
  "chipsDescending ps = sorted_wrt (\<lambda>a b. sint (chips b) \<le> sint (chips a)) ps"

text \<open>A sample roster with a tie: Ann and Cy both hold 300 chips.\<close>

definition rosterTie :: "player list" where
  "rosterTie = [(Player1 ''Ann'')\<lparr>chips := 300\<rparr>, (Player1 ''Bob'')\<lparr>chips := 700\<rparr>,
                (Player1 ''Cy'')\<lparr>chips := 300\<rparr>, (Player1 ''Dee'')\<lparr>chips := 0 - 5\<rparr>]"

subsection \<open>Ranking tree\<close>

text \<open>
  \<open>TreeNode\<close> with its two child pointers; the null pointer is \<open>Leaf\<close>.
  \<open>insert_node\<close> is \<open>PlayerTree::insert\<close>, returning the tree that the reference
  parameter \<open>node\<close> points to afterwards. \<open>inOrder\<close> returns the players in the order
  in which the traversal prints them.
\<close>

datatype tree = Leaf | Node tree player tree

fun insert_node :: "tree \<Rightarrow> player \<Rightarrow> tree" where
  "insert_node Leaf p = Node Leaf p Leaf"
| "insert_node (Node l q r) p =
     (if chips q <s chips p then Node (insert_node l p) q r
      else Node l q (insert_node r p))"

fun inOrder :: "tree \<Rightarrow> player list" where
  "inOrder Leaf = []"
| "inOrder (Node l q r) = inOrder l @ [q] @ inOrder r"

definition addPlayer :: "tree \<Rightarrow> player \<Rightarrow> tree" where
  "addPlayer root p = insert_node root p"

text \<open>The loops of \<open>main\<close> that fill an empty tree with the roster, front to back.\<close>

definition buildRanking :: "player list \<Rightarrow> tree" where
  "buildRanking ps = foldl addPlayer Leaf ps"

text \<open>The shape every tree built by \<open>insert_node\<close> has: strictly more chips in the left
  subtree than at the node, at most as many in the right subtree.\<close>

fun rankOrdered :: "tree \<Rightarrow> bool" where
  "rankOrdered Leaf = True"
| "rankOrdered (Node l q r) =
     (rankOrdered l \<and> rankOrdered r
      \<and> (\<forall>x \<in> set (inOrder l). sint (chips q) < sint (chips x))
      \<and> (\<forall>y \<in> set (inOrder r). sint (chips y) \<le> sint (chips q)))"

subsection \<open>The game loop\<close>

text \<open>
  The local variables of \<open>gameLoop\<close> and its parameters. \<open>players\<close> is the whole
  array passed in (\<open>MAX_PLAYERS\<close> slots in \<open>main\<close>), of which the first
  \<open>numPlayers\<close> are the roster; \<open>turnOrder\<close> is the queue, front first.
  \<open>numPlayers\<close> and \<open>communityIndex\<close> count up from 0 and stay small, so they are
  natural numbers. The interaction graph is only written to (by \<open>betInter\<close>) and is
  left out, as are console output, delays and the prompts between hands.
\<close>

record game =
  players :: "player list"
  numPlayers :: nat
  deck :: deck
  round :: round_state
  communityCards :: "card list"
  communityIndex :: nat
  eliminatedPlayers :: "string set"
  turnOrder :: "nat list"
  env :: io

text \<open>The declarations at the top of \<open>gameLoop\<close>, before its \<open>while\<close> loop.\<close>

definition gameLoop_init :: "player list \<Rightarrow> nat \<Rightarrow> deck \<Rightarrow> io \<Rightarrow> game" where
  "gameLoop_init ps n d e =
     \<lparr>players = ps, numPlayers = n, deck = d,
      round = \<lparr>currentBet = 0, pot = 0, actionHistory = []\<rparr>,
      communityCards = [Card0, Card0, Card0, Card0, Card0], communityIndex = 0,
      eliminatedPlayers = {}, turnOrder = [0 ..< n], env = e\<rparr>"

definition andThen :: "error + 'a \<Rightarrow> ('a \<Rightarrow> error + 'b) \<Rightarrow> error + 'b" where
  "andThen r f = (case r of Inl e \<Rightarrow> Inl e | Inr x \<Rightarrow> f x)"

text \<open>The loop dealing two cards to each player, over the indices still to be served.
  An index outside the array is an out-of-bounds access.\<close>

fun dealHole :: "nat list \<Rightarrow> game \<Rightarrow> error + game" where
  "dealHole [] g = Inr g"
| "dealHole (i # is) g =
     (if length (players g) \<le> i then Inl OutOfBounds
      else
        (case dealCard (deck g) of
           Inl e \<Rightarrow> Inl e
         | Inr (c0, d0) \<Rightarrow>
             (case dealCard d0 of
                Inl e \<Rightarrow> Inl e
              | Inr (c1, d1) \<Rightarrow>
                  dealHole is
                    (g\<lparr>players := (players g)
                          [i := receiveCard c1 1 (receiveCard c0 0 ((players g ! i)\<lparr>folded := False\<rparr>))],
                       deck := d1\<rparr>))))"

text \<open>The start of a hand up to the first betting round: shuffle (by the permutation
  the random device yields), reset \<open>communityIndex\<close>, deal the hole cards.\<close>

definition startHand :: "nat list \<Rightarrow> game \<Rightarrow> error + game" where
  "startHand perm g =
     dealHole [0 ..< numPlayers g] (g\<lparr>deck := shuffle perm (deck g), communityIndex := 0\<rparr>)"

text \<open>One betting round: the \<open>for\<close> loop with \<open>n\<close> iterations left.\<close>

fun bettingRound :: "nat \<Rightarrow> game \<Rightarrow> error + game" where
  "bettingRound 0 g = Inr g"
| "bettingRound (Suc n) g =
     (case turnOrder g of
        [] \<Rightarrow> bettingRound n g
      | currentPlayerIndex # rest \<Rightarrow>
          (if length (players g) \<le> currentPlayerIndex then Inl OutOfBounds
           else if \<not> folded (players g ! currentPlayerIndex)
                   \<and> 0 <s chips (players g ! currentPlayerIndex) then
             (case takeAction (env g) (round g) (communityCards g) (communityIndex g)
                     (players g ! currentPlayerIndex) of
                Inl e \<Rightarrow> Inl e
              | Inr (p', rs', e') \<Rightarrow>
                  bettingRound n
                    (g\<lparr>players := (players g)[currentPlayerIndex := p'], round := rs',
                       env := e', turnOrder := rest @ [currentPlayerIndex]\<rparr>))
           else bettingRound n (g\<lparr>turnOrder := rest\<rparr>)))"

definition bettingPass :: "game \<Rightarrow> error + game" where
  "bettingPass g = bettingRound (numPlayers g) g"

text \<open>Dealing \<open>k\<close> community cards (3 for the flop, 1 for the turn, 1 for the river),
  each only while \<open>communityIndex < 5\<close>.\<close>

fun dealCommunity :: "nat \<Rightarrow> game \<Rightarrow> error + game" where
  "dealCommunity 0 g = Inr g"
| "dealCommunity (Suc k) g =
     (if communityIndex g < 5 then
        (case dealCard (deck g) of
           Inl e \<Rightarrow> Inl e
         | Inr (c, d') \<Rightarrow>
             dealCommunity k
               (g\<lparr>communityCards := (communityCards g)[communityIndex g := c],
                  communityIndex := communityIndex g + 1, deck := d'\<rparr>))
      else dealCommunity k g)"

text \<open>The state at the start of the first, second, third and fourth betting round of a
  hand that begins in state \<open>g\<close>.\<close>

definition roundStart1 :: "nat list \<Rightarrow> game \<Rightarrow> error + game" where
  "roundStart1 perm g = startHand perm g"

definition roundStart2 :: "nat list \<Rightarrow> game \<Rightarrow> error + game" where
  "roundStart2 perm g = andThen (andThen (roundStart1 perm g) bettingPass) (dealCommunity 3)"

definition roundStart3 :: "nat list \<Rightarrow> game \<Rightarrow> error + game" where
  "roundStart3 perm g = andThen (andThen (roundStart2 perm g) bettingPass) (dealCommunity 1)"

definition roundStart4 :: "nat list \<Rightarrow> game \<Rightarrow> error + game" where
  "roundStart4 perm g = andThen (andThen (roundStart3 perm g) bettingPass) (dealCommunity 1)"

text \<open>The roster is the first \<open>numPlayers\<close> slots of the array; \<open>showdown\<close> is
  called on the roster and the pot.\<close>

definition roster :: "game \<Rightarrow> player list" where
  "roster g = take (numPlayers g) (players g)"

definition showdownStep :: "game \<Rightarrow> game" where
  "showdownStep g =
     (let (ps', pot') = showdown (roster g) (communityCards g) (communityIndex g) (pot (round g))
      in g\<lparr>players := ps' @ drop (numPlayers g) (players g), round := (round g)\<lparr>pot := pot'\<rparr>\<rparr>)"

text \<open>The elimination loop: \<open>i\<close> is the slot examined, \<open>remainingPlayers\<close> the next
  slot to fill. The loop runs over the roster, which lies inside the array.\<close>

function eliminate :: "nat \<Rightarrow> nat \<Rightarrow> game \<Rightarrow> game" where
  "eliminate i remainingPlayers g =
     (if i < numPlayers g \<and> i < length (players g) then
        (if chips (players g ! i) = 0 then
           eliminate (i + 1) remainingPlayers
             (g\<lparr>eliminatedPlayers := insert (name (players g ! i)) (eliminatedPlayers g),
                players := (players g)[i := (players g ! i)\<lparr>folded := True\<rparr>]\<rparr>)
         else
           eliminate (i + 1) (remainingPlayers + 1)
             (g\<lparr>players := (players g)[remainingPlayers := players g ! i]\<rparr>))
      else g\<lparr>numPlayers := remainingPlayers\<rparr>)"
  by pat_completeness auto
termination
  by (relation "measure (\<lambda>(i, r, g). numPlayers g - i)") auto

declare eliminate.simps [simp del]

text \<open>\<open>mergeSort(players, 0, numPlayers - 1)\<close> sorts the roster inside the array.\<close>

definition sortStep :: "game \<Rightarrow> game" where
  "sortStep g = g\<lparr>players := mergeSort (players g) 0 (int (numPlayers g) - 1)\<rparr>"

text \<open>One iteration of the \<open>while\<close> loop of \<open>gameLoop\<close>, up to the prompts.\<close>

definition playHand :: "nat list \<Rightarrow> game \<Rightarrow> error + game" where
  "playHand perm g =
     andThen (andThen (roundStart4 perm g) bettingPass)
       (\<lambda>g'. Inr (sortStep (eliminate 0 0 (showdownStep g'))))"

text \<open>A sample game: two automated players at a fresh deck, and the shuffle that
  happens to leave every card in place.\<close>

definition idPerm :: "nat list" where
  "idPerm = [0 ..< 52]"


definition twoBots :: "nat \<Rightarrow> game" where
  "twoBots r = gameLoop_init [Player1 ''Bot 1'', Player1 ''Bot 2''] 2 Deck0 (envConst r [])"

text \<open>The sample game when \<open>rand()\<close> always returns 0, so that both players wager 50
  chips in every betting round: the state at the start of the betting round that follows
  \<open>k\<close> completed ones (\<open>k\<close> from 0 to 3).\<close>

definition botsRaised :: "nat \<Rightarrow> game" where
  "botsRaised k =
     \<lparr>players =
        [(Player1 ''Bot 1'')\<lparr>hand := (Card2 ''2'' ''Hearts'', Card2 ''3'' ''Hearts''),
                             chips := 1000 - 50 * of_nat k\<rparr>,
         (Player1 ''Bot 2'')\<lparr>hand := (Card2 ''4'' ''Hearts'', Card2 ''5'' ''Hearts''),
                             chips := 1000 - 50 * of_nat k\<rparr>],
      numPlayers = 2,
      deck = Deck0\<lparr>topCardIndex := (if k = 0 then 4 else 6 + k)\<rparr>,
      round = \<lparr>currentBet = (if k = 0 then 0 else 50), pot = 100 * of_nat k,
               actionHistory = take (2 * k)
                 [''Bot 1 raises to 50 chips.'', ''Bot 2 bets 50 chips.'',
                  ''Bot 1 bets 50 chips.'', ''Bot 2 bets 50 chips.'',
                  ''Bot 1 bets 50 chips.'', ''Bot 2 bets 50 chips.'']\<rparr>,
      communityCards =
        take (if k = 0 then 0 else 2 + k)
          [Card2 ''6'' ''Hearts'', Card2 ''7'' ''Hearts'', Card2 ''8'' ''Hearts'',
           Card2 ''9'' ''Hearts'', Card2 ''10'' ''Hearts'']
        @ drop (if k = 0 then 0 else 2 + k) [Card0, Card0, Card0, Card0, Card0],
      communityIndex = (if k = 0 then 0 else 2 + k),
      eliminatedPlayers = {}, turnOrder = [0, 1],
      env = (envConst 0 [])\<lparr>rnd_pos := 2 * k\<rparr>\<rparr>"

text \<open>The sample game when \<open>rand()\<close> always returns 2, so that both players fold in
  the first betting round: the state at the start of the second betting round.\<close>

definition botsFolded :: game where
  "botsFolded =
     \<lparr>players =
        [(Player1 ''Bot 1'')\<lparr>hand := (Card2 ''2'' ''Hearts'', Card2 ''3'' ''Hearts''),
                             folded := True\<rparr>,
         (Player1 ''Bot 2'')\<lparr>hand := (Card2 ''4'' ''Hearts'', Card2 ''5'' ''Hearts''),
                             folded := True\<rparr>],
      numPlayers = 2,
      deck = Deck0\<lparr>topCardIndex := 7\<rparr>,
      round = \<lparr>currentBet = 0, pot = 0,
               actionHistory = [''Bot 1 folds.'', ''Bot 2 folds.'']\<rparr>,
      communityCards =
        [Card2 ''6'' ''Hearts'', Card2 ''7'' ''Hearts'', Card2 ''8'' ''Hearts'', Card0, Card0],
      communityIndex = 3,
      eliminatedPlayers = {}, turnOrder = [0, 1],
      env = (envConst 2 [])\<lparr>rnd_pos := 2\<rparr>\<rparr>"

section \<open>Deck: dealing and exhaustion\<close>

lemma dealMany_ok:
  "topCardIndex d + n \<le> MAX_CARDS \<Longrightarrow>
   dealMany n d = Inr (map (\<lambda>i. cards d ! i) [topCardIndex d ..< topCardIndex d + n],
                       d\<lparr>topCardIndex := topCardIndex d + n\<rparr>)"
proof (induction n arbitrary: d)
  case 0
  then show ?case by simp
next
  case (Suc n)
  let ?d' = "d\<lparr>topCardIndex := topCardIndex d + 1\<rparr>"
  from Suc.prems have lt: "topCardIndex d < MAX_CARDS" by simp
  then have step: "dealCard d = Inr (cards d ! topCardIndex d, ?d')"
    by (simp add: dealCard_def)
  from Suc.prems have "topCardIndex ?d' + n \<le> MAX_CARDS" by simp
  from Suc.IH [OF this]
  have rest: "dealMany n ?d' =
      Inr (map (\<lambda>i. cards d ! i) [Suc (topCardIndex d) ..< Suc (topCardIndex d) + n],
           d\<lparr>topCardIndex := Suc (topCardIndex d) + n\<rparr>)"
    by simp
  have "[topCardIndex d ..< topCardIndex d + Suc n] =
        topCardIndex d # [Suc (topCardIndex d) ..< Suc (topCardIndex d) + n]"
    by (simp add: upt_rec)
  with step rest show ?case by simp
qed

lemma dealMany_fail:
  "MAX_CARDS < topCardIndex d + n \<Longrightarrow> 0 < n \<Longrightarrow> dealMany n d = Inl ExhaustedDeck"
proof (induction n arbitrary: d)
  case 0
  then show ?case by simp
next
  case (Suc n)
  show ?case
  proof (cases "topCardIndex d < MAX_CARDS")
    case False
    then show ?thesis by (simp add: dealCard_def)
  next
    case True
    let ?d' = "d\<lparr>topCardIndex := topCardIndex d + 1\<rparr>"
    from True have step: "dealCard d = Inr (cards d ! topCardIndex d, ?d')"
      by (simp add: dealCard_def)
    from Suc.prems have big: "MAX_CARDS < topCardIndex ?d' + n" by simp
    with True have "0 < n" by (cases n) simp_all
    from Suc.IH [OF big this] step show ?thesis by simp
  qed
qed

text \<open>
  Claim C6. For every deck state, \<open>dealCard\<close> returns the card at the cursor and
  advances the cursor by one when the cursor is below 52, and fails with ExhaustedDeck
  exactly when the cursor is not below 52 (which, under the deck invariant
  \<open>cursor \<le> 52\<close>, is exactly when the cursor has reached 52); \<open>reset\<close> sets the
  cursor to 0 and keeps the card order; 52 deals from cursor 0 succeed and yield the 52
  cards of the array in order, and a 53rd deal without a reset fails.
\<close>

theorem C6_dealCard_exhaustion:
  "(topCardIndex d < 52 \<longrightarrow>
      dealCard d = Inr (cards d ! topCardIndex d, d\<lparr>topCardIndex := topCardIndex d + 1\<rparr>))
   \<and> (dealCard d = Inl ExhaustedDeck \<longleftrightarrow> 52 \<le> topCardIndex d)
   \<and> (topCardIndex d \<le> 52 \<longrightarrow> (dealCard d = Inl ExhaustedDeck \<longleftrightarrow> topCardIndex d = 52))
   \<and> topCardIndex (reset d) = 0 \<and> cards (reset d) = cards d
   \<and> (topCardIndex d = 0 \<longrightarrow>
        dealMany 52 d = Inr (map (\<lambda>i. cards d ! i) [0 ..< 52], d\<lparr>topCardIndex := 52\<rparr>)
        \<and> dealMany 53 d = Inl ExhaustedDeck)"
proof -
  have a: "topCardIndex d < 52 \<longrightarrow>
      dealCard d = Inr (cards d ! topCardIndex d, d\<lparr>topCardIndex := topCardIndex d + 1\<rparr>)"
    by (simp add: dealCard_def MAX_CARDS_def)
  have b: "dealCard d = Inl ExhaustedDeck \<longleftrightarrow> 52 \<le> topCardIndex d"
    by (auto simp: dealCard_def MAX_CARDS_def)
  have c: "topCardIndex d \<le> 52 \<longrightarrow> (dealCard d = Inl ExhaustedDeck \<longleftrightarrow> topCardIndex d = 52)"
    using b by auto
  have r: "topCardIndex (reset d) = 0 \<and> cards (reset d) = cards d"
    by (simp add: reset_def)
  have e: "topCardIndex d = 0 \<longrightarrow>
        dealMany 52 d = Inr (map (\<lambda>i. cards d ! i) [0 ..< 52], d\<lparr>topCardIndex := 52\<rparr>)
        \<and> dealMany 53 d = Inl ExhaustedDeck"
  proof
    assume z: "topCardIndex d = 0"
    then have "topCardIndex d + 52 \<le> MAX_CARDS" by (simp add: MAX_CARDS_def)
    from dealMany_ok [OF this] z
    have e1: "dealMany 52 d = Inr (map (\<lambda>i. cards d ! i) [0 ..< 52], d\<lparr>topCardIndex := 52\<rparr>)"
      by simp
    from z have "MAX_CARDS < topCardIndex d + 53" by (simp add: MAX_CARDS_def)
    from dealMany_fail [OF this] have "dealMany 53 d = Inl ExhaustedDeck" by simp
    with e1 show "dealMany 52 d = Inr (map (\<lambda>i. cards d ! i) [0 ..< 52], d\<lparr>topCardIndex := 52\<rparr>)
        \<and> dealMany 53 d = Inl ExhaustedDeck" by simp
  qed
  from a b c r e show ?thesis by blast
qed

theorem C6_dealCard_exhaustion_witness:
  "topCardIndex Deck0 = 0 \<and> topCardIndex Deck0 < 52 \<and> topCardIndex Deck0 \<le> 52
   \<and> dealCard Deck0 = Inr (cards Deck0 ! 0, Deck0\<lparr>topCardIndex := 1\<rparr>)
   \<and> dealMany 53 Deck0 = Inl ExhaustedDeck
   \<and> dealCard (Deck0\<lparr>topCardIndex := 52\<rparr>) = Inl ExhaustedDeck"
proof -
  have z: "topCardIndex Deck0 = 0" by (simp add: Deck0_def)
  have f: "topCardIndex (Deck0\<lparr>topCardIndex := 52\<rparr>) = 52" by simp
  show ?thesis
    using C6_dealCard_exhaustion [of Deck0]
      C6_dealCard_exhaustion [of "Deck0\<lparr>topCardIndex := 52\<rparr>"] z f
    by simp
qed

section \<open>Hand scorer\<close>

lemma fst_incr: "map fst (incr k m) = (if k \<in> fst ` set m then map fst m else map fst m @ [k])"
proof (induction m)
  case Nil
  then show ?case by simp
next
  case (Cons e m)
  obtain k' c where e: "e = (k', c)" by (cases e)
  show ?case
  proof (cases "k = k'")
    case True
    with e show ?thesis by simp
  next
    case False
    with e Cons show ?thesis by (cases "k \<in> fst ` set m") simp_all
  qed
qed

lemma distinct_incr: "distinct (map fst m) \<Longrightarrow> distinct (map fst (incr k m))"
  by (simp add: fst_incr)

lemma map_of_incr:
  "map_of (incr k m) = (map_of m)(k \<mapsto> (case map_of m k of None \<Rightarrow> 1 | Some c \<Rightarrow> c + 1))"
  by (induction m) (auto simp: fun_eq_iff)

lemma tally_simps: "tally m [] = m" "tally m (r # rs) = tally (incr r m) rs"
  by (simp_all add: tally_def)

lemma distinct_tally: "distinct (map fst m) \<Longrightarrow> distinct (map fst (tally m rs))"
  by (induction rs arbitrary: m) (simp_all add: tally_simps distinct_incr)

lemma set_tally: "fst ` set (tally m rs) = fst ` set m \<union> set rs"
proof (induction rs arbitrary: m)
  case Nil then show ?case by (simp add: tally_simps)
next
  case (Cons r rs)
  have "fst ` set (incr r m) = insert r (fst ` set m)"
  proof -
    have "set (map fst (incr r m)) = insert r (set (map fst m))"
      by (auto simp: fst_incr)
    then show ?thesis by simp
  qed
  with Cons show ?case by (simp add: tally_simps)
qed

lemma map_of_tally:
  "map_of (tally m rs) r =
     (if r \<in> set rs then Some ((case map_of m r of None \<Rightarrow> 0 | Some c \<Rightarrow> c) + int (count_list rs r))
      else map_of m r)"
proof (induction rs arbitrary: m)
  case Nil then show ?case by (simp add: tally_simps)
next
  case (Cons a rs)
  show ?case
    by (simp add: tally_simps Cons.IH map_of_incr split: option.splits)
qed

lemma foldl_addScore: "foldl addScore s m = s + (\<Sum>e \<leftarrow> m. addScore 0 e)"
proof (induction m arbitrary: s)
  case Nil then show ?case by simp
next
  case (Cons e m)
  have "addScore s e = s + addScore 0 e" by (simp add: addScore_def)
  with Cons show ?case by simp
qed


lemma foldl_incr_rank: "foldl (\<lambda>m c. incr (rank c) m) m cs = tally m (map rank cs)"
  by (simp add: tally_def foldl_map)

lemma addScore_points: "addScore 0 (k, int n) = spec_points n"
  by (simp add: addScore_def spec_points_def)

lemma tally_entries:
  assumes "e \<in> set (tally [] rs)"
  shows "addScore 0 e = spec_points (count_list rs (fst e))"
proof -
  obtain k c where e: "e = (k, c)" by (cases e)
  have d: "distinct (map fst (tally [] rs))" by (rule distinct_tally) simp
  from assms e d have "map_of (tally [] rs) k = Some c" by simp
  moreover have "k \<in> set rs" using assms e set_tally [of "[]" rs] by force
  ultimately have "c = int (count_list rs k)" by (simp add: map_of_tally)
  with e show ?thesis by (simp add: addScore_points)
qed

lemma tally_score:
  "foldl addScore 0 (tally [] rs) = (\<Sum>r \<leftarrow> remdups rs. spec_points (count_list rs r))"
proof -
  let ?m = "tally [] rs"
  let ?f = "\<lambda>r. spec_points (count_list rs r)"
  have d: "distinct (map fst ?m)" by (rule distinct_tally) simp
  have s: "set (map fst ?m) = set rs" using set_tally [of "[]" rs] by simp
  have "foldl addScore 0 ?m = (\<Sum>e \<leftarrow> ?m. addScore 0 e)" by (simp add: foldl_addScore)
  also have "\<dots> = (\<Sum>e \<leftarrow> ?m. ?f (fst e))"
    by (rule arg_cong [where f = sum_list], rule map_cong) (simp_all add: tally_entries)
  also have "\<dots> = (\<Sum>k \<leftarrow> map fst ?m. ?f k)" by (simp add: comp_def)
  also have "\<dots> = sum ?f (set (map fst ?m))" using d by (rule sum_list_distinct_conv_sum_set)
  also have "\<dots> = sum ?f (set (remdups rs))" using s by simp
  also have "\<dots> = (\<Sum>r \<leftarrow> remdups rs. ?f r)"
    by (rule sum_list_distinct_conv_sum_set [symmetric]) simp
  finally show ?thesis .
qed

lemma score_refines:
  "evaluateHandStrength p cc n = spec_score (hand p) (take n cc)"
proof -
  have "evaluateHandStrength p cc n
        = foldl addScore 0 (tally [] (map rank (take n cc @ [fst (hand p), snd (hand p)])))"
    unfolding evaluateHandStrength_def Let_def foldl_incr_rank
    by (simp add: tally_def)
  then show ?thesis by (simp add: tally_score spec_score_def spec_ranks_def)
qed


lemma score_support:
  assumes small: "\<And>r. r \<notin> S \<Longrightarrow> spec_count p cc n r \<le> 1"
    and big: "\<And>r. r \<in> S \<Longrightarrow> 0 < spec_count p cc n r"
    and fin: "finite S"
  shows "evaluateHandStrength p cc n = (\<Sum>r\<in>S. spec_points (spec_count p cc n r))"
proof -
  let ?rs = "spec_ranks (hand p) (take n cc)"
  let ?f = "\<lambda>r. spec_points (count_list ?rs r)"
  have sub: "S \<subseteq> set ?rs"
  proof
    fix r assume "r \<in> S"
    from big [OF this] show "r \<in> set ?rs"
      by (simp add: spec_count_def) (metis count_list_0_iff less_numeral_extra(3))
  qed
  have zero: "\<forall>r \<in> set ?rs - S. ?f r = 0"
  proof
    fix r assume "r \<in> set ?rs - S"
    then have "count_list ?rs r \<le> 1" using small [of r] by (simp add: spec_count_def)
    then show "?f r = 0" by (simp add: spec_points_def)
  qed
  have "evaluateHandStrength p cc n = (\<Sum>r \<leftarrow> remdups ?rs. ?f r)"
    by (simp add: score_refines spec_score_def)
  also have "\<dots> = sum ?f (set ?rs)"
    using sum_list_distinct_conv_sum_set [of "remdups ?rs" ?f] by simp
  also have "\<dots> = sum ?f S"
    by (rule sum.mono_neutral_right) (use sub zero in simp_all)
  finally show ?thesis by (simp add: spec_count_def)
qed

text \<open>
  Claim C2. For every pair of hole cards and every visible prefix of the community
  cards, the hand score is the sum, over the distinct ranks of the union of hole and
  visible community cards, of 2 for a rank occurring exactly twice, 6 for exactly three
  times, 10 for exactly four times and 0 otherwise. In particular: no repeated rank
  scores 0; one pair (every other rank single) scores 2; one triple scores 6; one quad
  scores 10; a pair and a separate triple score 8.
\<close>

theorem C2_score_formula:
  "evaluateHandStrength p cc n = spec_score (hand p) (take n cc)
   \<and> ((\<forall>r. spec_count p cc n r \<le> 1) \<longrightarrow> evaluateHandStrength p cc n = 0)
   \<and> (spec_count p cc n a = 2 \<and> (\<forall>r. r \<noteq> a \<longrightarrow> spec_count p cc n r \<le> 1)
        \<longrightarrow> evaluateHandStrength p cc n = 2)
   \<and> (spec_count p cc n a = 3 \<and> (\<forall>r. r \<noteq> a \<longrightarrow> spec_count p cc n r \<le> 1)
        \<longrightarrow> evaluateHandStrength p cc n = 6)
   \<and> (spec_count p cc n a = 4 \<and> (\<forall>r. r \<noteq> a \<longrightarrow> spec_count p cc n r \<le> 1)
        \<longrightarrow> evaluateHandStrength p cc n = 10)
   \<and> (a \<noteq> b \<and> spec_count p cc n a = 2 \<and> spec_count p cc n b = 3
        \<and> (\<forall>r. r \<noteq> a \<and> r \<noteq> b \<longrightarrow> spec_count p cc n r \<le> 1)
        \<longrightarrow> evaluateHandStrength p cc n = 8)"
proof -
  have none: "evaluateHandStrength p cc n = 0" if "\<forall>r. spec_count p cc n r \<le> 1"
    using score_support [of "{}" p cc n] that by simp
  have one: "evaluateHandStrength p cc n = spec_points k"
    if "spec_count p cc n a = k" "0 < k" "\<forall>r. r \<noteq> a \<longrightarrow> spec_count p cc n r \<le> 1" for k
    using score_support [of "{a}" p cc n] that by simp
  have two: "evaluateHandStrength p cc n = 8"
    if "a \<noteq> b" "spec_count p cc n a = 2" "spec_count p cc n b = 3"
       "\<forall>r. r \<noteq> a \<and> r \<noteq> b \<longrightarrow> spec_count p cc n r \<le> 1"
  proof -
    have "0 < spec_count p cc n r" if "r \<in> {a, b}" for r
      using that \<open>spec_count p cc n a = 2\<close> \<open>spec_count p cc n b = 3\<close> by auto
    moreover have "spec_count p cc n r \<le> 1" if "r \<notin> {a, b}" for r
      using that \<open>\<forall>r. r \<noteq> a \<and> r \<noteq> b \<longrightarrow> spec_count p cc n r \<le> 1\<close> by simp
    ultimately have "evaluateHandStrength p cc n = (\<Sum>r\<in>{a, b}. spec_points (spec_count p cc n r))"
      using score_support [of "{a, b}" p cc n] by blast
    with that show ?thesis by (simp add: spec_points_def)
  qed
  show ?thesis
    using none one [of 2] one [of 3] one [of 4] two
    by (simp add: score_refines spec_points_def)
qed

lemmas ex_defs = spec_count_def spec_ranks_def holding_def board_def receiveCard_def
  Card2_def Card0_def Player1_def

theorem C2_score_formula_witness:
  "evaluateHandStrength (holding ''Ann'' ''2'' ''9'') (board [''4'', ''7'', ''King'']) 3 = 0
   \<and> evaluateHandStrength (holding ''Ann'' ''2'' ''9'') (board [''2'', ''7'', ''King'']) 3 = 2
   \<and> evaluateHandStrength (holding ''Ann'' ''2'' ''2'') (board [''2'', ''7'', ''King'', ''Ace'']) 4 = 6
   \<and> evaluateHandStrength (holding ''Ann'' ''2'' ''2'') (board [''2'', ''7'', ''2'', ''Ace'', ''3'']) 5 = 10
   \<and> evaluateHandStrength (holding ''Ann'' ''2'' ''7'') (board [''2'', ''7'', ''7'', ''Ace'', ''3'']) 5 = 8"
proof -
  have h0: "\<forall>r. spec_count (holding ''Ann'' ''2'' ''9'') (board [''4'', ''7'', ''King'']) 3 r \<le> 1"
    by (auto simp: ex_defs)
  have h1: "spec_count (holding ''Ann'' ''2'' ''9'') (board [''2'', ''7'', ''King'']) 3 ''2'' = 2
      \<and> (\<forall>r. r \<noteq> ''2'' \<longrightarrow>
            spec_count (holding ''Ann'' ''2'' ''9'') (board [''2'', ''7'', ''King'']) 3 r \<le> 1)"
    by (auto simp: ex_defs)
  have h2: "spec_count (holding ''Ann'' ''2'' ''2'') (board [''2'', ''7'', ''King'', ''Ace'']) 4 ''2'' = 3
      \<and> (\<forall>r. r \<noteq> ''2'' \<longrightarrow>
            spec_count (holding ''Ann'' ''2'' ''2'') (board [''2'', ''7'', ''King'', ''Ace'']) 4 r \<le> 1)"
    by (auto simp: ex_defs)
  have h3: "spec_count (holding ''Ann'' ''2'' ''2'') (board [''2'', ''7'', ''2'', ''Ace'', ''3'']) 5 ''2'' = 4
      \<and> (\<forall>r. r \<noteq> ''2'' \<longrightarrow>
            spec_count (holding ''Ann'' ''2'' ''2'') (board [''2'', ''7'', ''2'', ''Ace'', ''3'']) 5 r \<le> 1)"
    by (auto simp: ex_defs)
  have h4: "''2'' \<noteq> ''7''
      \<and> spec_count (holding ''Ann'' ''2'' ''7'') (board [''2'', ''7'', ''7'', ''Ace'', ''3'']) 5 ''2'' = 2
      \<and> spec_count (holding ''Ann'' ''2'' ''7'') (board [''2'', ''7'', ''7'', ''Ace'', ''3'']) 5 ''7'' = 3
      \<and> (\<forall>r. r \<noteq> ''2'' \<and> r \<noteq> ''7'' \<longrightarrow>
            spec_count (holding ''Ann'' ''2'' ''7'') (board [''2'', ''7'', ''7'', ''Ace'', ''3'']) 5 r \<le> 1)"
    by (auto simp: ex_defs)
  from h0 C2_score_formula [of "holding ''Ann'' ''2'' ''9''" "board [''4'', ''7'', ''King'']" 3]
  have c0: "evaluateHandStrength (holding ''Ann'' ''2'' ''9'') (board [''4'', ''7'', ''King'']) 3 = 0"
    by blast
  from h1 C2_score_formula [of "holding ''Ann'' ''2'' ''9''" "board [''2'', ''7'', ''King'']" 3 "''2''"]
  have c1: "evaluateHandStrength (holding ''Ann'' ''2'' ''9'') (board [''2'', ''7'', ''King'']) 3 = 2"
    by blast
  from h2 C2_score_formula [of "holding ''Ann'' ''2'' ''2''" "board [''2'', ''7'', ''King'', ''Ace'']" 4 "''2''"]
  have c2: "evaluateHandStrength (holding ''Ann'' ''2'' ''2'') (board [''2'', ''7'', ''King'', ''Ace'']) 4 = 6"
    by blast
  from h3 C2_score_formula [of "holding ''Ann'' ''2'' ''2''" "board [''2'', ''7'', ''2'', ''Ace'', ''3'']" 5 "''2''"]
  have c3: "evaluateHandStrength (holding ''Ann'' ''2'' ''2'') (board [''2'', ''7'', ''2'', ''Ace'', ''3'']) 5 = 10"
    by blast
  from h4 C2_score_formula [of "holding ''Ann'' ''2'' ''7''" "board [''2'', ''7'', ''7'', ''Ace'', ''3'']" 5 "''2''" "''7''"]
  have c4: "evaluateHandStrength (holding ''Ann'' ''2'' ''7'') (board [''2'', ''7'', ''7'', ''Ace'', ''3'']) 5 = 8"
    by blast
  from c0 c1 c2 c3 c4 show ?thesis by blast
qed

section \<open>Betting actions\<close>

subsection \<open>Signed 32-bit arithmetic without overflow\<close>

lemma sint_range: "- (2 ^ 31) \<le> sint (a :: cint)" "sint (a :: cint) < 2 ^ 31"
  using sint_ge [of a] sint_lt [of a] by simp_all

lemma sint_add_ok:
  "- (2 ^ 31) \<le> sint a + sint b \<Longrightarrow> sint a + sint b < 2 ^ 31 \<Longrightarrow>
   sint (a + b :: cint) = sint a + sint b"
  by (simp add: sint_word_ariths signed_take_bit_int_eq_self)

lemma sint_sub_ok:
  "- (2 ^ 31) \<le> sint a - sint b \<Longrightarrow> sint a - sint b < 2 ^ 31 \<Longrightarrow>
   sint (a - b :: cint) = sint a - sint b"
  by (simp add: sint_word_ariths signed_take_bit_int_eq_self)

lemma sint_of_int_ok:
  "- (2 ^ 31) \<le> n \<Longrightarrow> n < 2 ^ 31 \<Longrightarrow> sint (word_of_int n :: cint) = n"
  by (simp add: signed_take_bit_int_eq_self sint_sbintrunc')

lemma botAction_conserve:
  "botAction action p rs = (p', rs') \<Longrightarrow> chips p' + pot rs' = chips p + pot rs"
  by (auto simp: botAction_def Let_def split: if_splits)

lemma readAmount_rest: "readAmount ts = Some (a, ts') \<Longrightarrow> length ts' < length ts"
  by (induction ts rule: readAmount.induct) (auto split: if_splits)

lemma humanAction_conserve:
  "humanAction ts p rs = Inr (p', rs', ts') \<Longrightarrow> chips p' + pot rs' = chips p + pot rs"
  by (induction ts p rs rule: humanAction.induct)
     (auto simp: Let_def split: if_splits option.splits)

lemma takeAction_conserve:
  "takeAction e rs cc n p = Inr (p', rs', e') \<Longrightarrow> chips p' + pot rs' = chips p + pot rs"
  by (auto simp: takeAction_def Let_def split: if_splits prod.splits sum.splits
           dest: botAction_conserve humanAction_conserve)


lemma botAction_wager:
  assumes "0 \<le> sint (chips p)" "0 \<le> sint (currentBet rs)" "sint (currentBet rs) + 20 < 2 ^ 31"
    and "botAction action p rs = (p', rs')"
  shows "\<exists>w. 0 \<le> sint w \<and> sint w \<le> sint (chips p) \<and> chips p' = chips p - w
             \<and> pot rs' = pot rs + w \<and> 0 \<le> sint (currentBet rs')"
proof -
  have cb20: "sint (currentBet rs + 20) = sint (currentBet rs) + 20"
    using assms(2,3) sint_add_ok [of "currentBet rs" 20] by simp
  consider (a0) "action = 0" | (a1) "action = 1" | (a2) "action = 2" | (a3) "action = 3"
    | (other) "action \<noteq> 0" "action \<noteq> 1" "action \<noteq> 2" "action \<noteq> 3"
    by blast
  then show ?thesis
  proof cases
    case a0
    let ?b = "if chips p <s 50 then chips p else 50"
    have b: "0 \<le> sint ?b" "sint ?b \<le> sint (chips p)"
      using assms(1) by (simp_all add: word_sless_alt)
    from a0 assms(4) have "chips p' = chips p - ?b" "pot rs' = pot rs + ?b"
      by (auto simp: botAction_def Let_def split: if_splits)
    moreover from a0 assms(2,4) b(1) have "0 \<le> sint (currentBet rs')"
      by (auto simp: botAction_def Let_def split: if_splits)
    ultimately show ?thesis using b by blast
  next
    case a1
    show ?thesis
    proof (cases "currentBet rs \<le>s chips p")
      case True
      with a1 assms(4) have "chips p' = chips p - currentBet rs" "pot rs' = pot rs + currentBet rs"
        "currentBet rs' = currentBet rs"
        by (auto simp: botAction_def)
      with True assms(2) show ?thesis by (auto simp: word_sle_eq)
    next
      case False
      with a1 assms(4) have "chips p' = chips p - 0" "pot rs' = pot rs + 0"
        "currentBet rs' = currentBet rs"
        by (auto simp: botAction_def)
      with assms(1,2) show ?thesis by (metis order_refl sint_0)
    qed
  next
    case a2
    with assms(4) have "chips p' = chips p - 0" "pot rs' = pot rs + 0"
      "currentBet rs' = currentBet rs"
      by (auto simp: botAction_def)
    with assms(1,2) show ?thesis by (metis order_refl sint_0)
  next
    case a3
    show ?thesis
    proof (cases "currentBet rs + 20 \<le>s chips p")
      case True
      with a3 assms(4) have "chips p' = chips p - 20" "pot rs' = pot rs + 20"
        "currentBet rs' = currentBet rs + 20"
        by (auto simp: botAction_def)
      moreover from True cb20 assms(2) have "sint (20 :: cint) \<le> sint (chips p)"
        by (simp add: word_sle_eq)
      moreover have "0 \<le> sint (20 :: cint)" by simp
      moreover have "0 \<le> sint (currentBet rs + 20)" using cb20 assms(2) by simp
      ultimately show ?thesis by metis
    next
      case False
      with a3 assms(4) have "chips p' = chips p - 0" "pot rs' = pot rs + 0"
        "currentBet rs' = currentBet rs"
        by (auto simp: botAction_def)
      with assms(1,2) show ?thesis by (metis order_refl sint_0)
    qed
  next
    case other
    with assms(4) have "chips p' = chips p - 0" "pot rs' = pot rs + 0"
      "currentBet rs' = currentBet rs"
      by (auto simp: botAction_def)
    with assms(1,2) show ?thesis by (metis order_refl sint_0)
  qed
qed

lemma readAmount_positive: "readAmount ts = Some (a, ts') \<Longrightarrow> 0 < sint a"
  by (induction ts rule: readAmount.induct) (auto simp: sint_of_int_ok split: if_splits)

lemma humanAction_wager:
  assumes "0 \<le> sint (chips p)" "0 \<le> sint (currentBet rs)"
    and "humanAction ts p rs = Inr (p', rs', ts')"
  shows "\<exists>w. 0 \<le> sint w \<and> sint w \<le> sint (chips p) \<and> chips p' = chips p - w
             \<and> pot rs' = pot rs + w \<and> 0 \<le> sint (currentBet rs')"
  using assms
proof (induction ts p rs rule: humanAction.induct)
  case (1 p rs)
  then show ?case by simp
next
  case (2 n ts p rs)
  then show ?case by simp
next
  case (3 action ts p rs)
  have idle: ?case if "chips p' = chips p" "pot rs' = pot rs" "currentBet rs' = currentBet rs"
  proof -
    from that have "chips p' = chips p - 0" "pot rs' = pot rs + 0" by simp_all
    with that(3) "3.prems"(1,2) show ?thesis by (metis order_refl sint_0)
  qed
  consider (bet) "action = ''Bet'' \<or> action = ''Raise''"
    | (call) "action = ''Call''" | (check) "action = ''Check''" | (fold) "action = ''Fold''"
    | (other) "\<not> (action = ''Bet'' \<or> action = ''Raise'')" "action \<noteq> ''Call''"
        "action \<noteq> ''Check''" "action \<noteq> ''Fold''"
    by blast
  then show ?case
  proof cases
    case bet
    with "3.prems"(3) obtain amount where ra: "readAmount ts = Some (amount, ts')"
      by (auto simp: Let_def split: option.splits)
    let ?b = "if chips p <s amount then chips p else amount"
    from readAmount_positive [OF ra] "3.prems"(1)
    have b: "0 \<le> sint ?b" "sint ?b \<le> sint (chips p)"
      by (simp_all add: word_sless_alt)
    from bet ra "3.prems"(3) have "chips p' = chips p - ?b" "pot rs' = pot rs + ?b"
      by (auto simp: Let_def)
    moreover from bet ra "3.prems"(2,3) b(1) have "0 \<le> sint (currentBet rs')"
      by (auto simp: Let_def split: if_splits)
    ultimately show ?thesis using b by blast
  next
    case call
    show ?thesis
    proof (cases "currentBet rs \<le>s chips p")
      case True
      with call "3.prems"(3) have "chips p' = chips p - currentBet rs"
        "pot rs' = pot rs + currentBet rs" "currentBet rs' = currentBet rs"
        by auto
      with True "3.prems"(2) show ?thesis by (auto simp: word_sle_eq)
    next
      case False
      with call "3.prems"(3) show ?thesis by (intro idle) auto
    qed
  next
    case check
    with "3.prems"(3) show ?thesis by (intro idle) auto
  next
    case fold
    with "3.prems"(3) show ?thesis by (intro idle) auto
  next
    case other
    with "3.prems"(3) have "humanAction ts p rs = Inr (p', rs', ts')" by simp
    from "3.IH" [OF other "3.prems"(1,2) this] show ?thesis .
  qed
qed

lemma takeAction_wager:
  assumes "0 \<le> sint (chips p)" "0 \<le> sint (currentBet rs)" "sint (currentBet rs) + 20 < 2 ^ 31"
    and "takeAction e rs cc n p = Inr (p', rs', e')"
  shows "\<exists>w. 0 \<le> sint w \<and> sint w \<le> sint (chips p) \<and> chips p' = chips p - w
             \<and> pot rs' = pot rs + w \<and> 0 \<le> sint (currentBet rs')"
proof (cases "folded p")
  case True
  with assms(4) have "chips p' = chips p - 0" "pot rs' = pot rs + 0" "currentBet rs' = currentBet rs"
    by (auto simp: takeAction_def)
  with assms(1,2) show ?thesis by (metis order_refl sint_0)
next
  case False
  show ?thesis
  proof (cases "isBot p")
    case True
    with False assms(4) obtain action where "botAction action p rs = (p', rs')"
      by (auto simp: takeAction_def Let_def split: prod.splits)
    from botAction_wager [OF assms(1-3) this] show ?thesis .
  next
    case bot: False
    with False assms(4) obtain ts' where "humanAction (input e) p rs = Inr (p', rs', ts')"
      by (auto simp: takeAction_def split: sum.splits)
    from humanAction_wager [OF assms(1,2) this] show ?thesis .
  qed
qed

lemma takeAction_Inl:
  "takeAction e rs cc n p = Inl err \<Longrightarrow> err = Blocked \<and> \<not> isBot p \<and> \<not> folded p"
proof -
  have h: "humanAction ts q r = Inl x \<Longrightarrow> x = Blocked" for ts q r x
    by (induction ts q r rule: humanAction.induct)
       (auto simp: Let_def split: if_splits option.splits)
  assume "takeAction e rs cc n p = Inl err"
  then show ?thesis
    by (auto simp: takeAction_def Let_def split: if_splits prod.splits sum.splits dest: h)
qed

subsection \<open>Properties of takeAction\<close>

lemma botAction_fold:
  "botAction action p rs = (p', rs') \<Longrightarrow> folded p' \<Longrightarrow> \<not> folded p \<Longrightarrow>
   chips p' = chips p \<and> pot rs' = pot rs"
  by (auto simp: botAction_def Let_def split: if_splits)

lemma humanAction_fold:
  "humanAction ts p rs = Inr (p', rs', ts') \<Longrightarrow> folded p' \<Longrightarrow> \<not> folded p \<Longrightarrow>
   chips p' = chips p \<and> pot rs' = pot rs"
  by (induction ts p rs rule: humanAction.induct)
     (auto simp: Let_def split: if_splits option.splits)

lemma botAction_check:
  "botAction action p rs = (p', rs') \<Longrightarrow>
   actionHistory rs' = actionHistory rs @ [name p @ '' checks.''] \<Longrightarrow>
   chips p' = chips p \<and> pot rs' = pot rs"
  by (auto simp: botAction_def Let_def split: if_splits)

lemma humanAction_check:
  "humanAction ts p rs = Inr (p', rs', ts') \<Longrightarrow>
   actionHistory rs' = actionHistory rs @ [name p @ '' checks.''] \<Longrightarrow>
   chips p' = chips p \<and> pot rs' = pot rs"
  by (induction ts p rs rule: humanAction.induct)
     (auto simp: Let_def split: if_splits option.splits)

lemma takeAction_cases:
  assumes "takeAction e rs cc n p = Inr (p', rs', e')"
  obtains (skip) "folded p" "p' = p" "rs' = rs"
    | (bot) action where "\<not> folded p" "isBot p" "botAction action p rs = (p', rs')"
    | (human) ts' where "\<not> folded p" "\<not> isBot p" "humanAction (input e) p rs = Inr (p', rs', ts')"
  using assms
  by (auto simp: takeAction_def Let_def split: if_splits prod.splits sum.splits)

text \<open>
  Claim C10. For every single call of \<open>takeAction\<close>, chips are conserved
  between the acting player and the pot: the amount by which the pot grows is exactly the
  amount by which the player's chips shrink, so the sum of the player's chips and the pot
  is unchanged (in the program's 32-bit arithmetic, and as integers whenever the amounts
  are non-negative and stay in range); a fold and a logged check move no chips. The only
  call that does not return is that of a human player whose input has ended.
\<close>

theorem C10_takeAction_conserves:
  "case takeAction e rs cc n p of
     Inr (p', rs', e') \<Rightarrow>
       pot rs' - pot rs = chips p - chips p'
       \<and> chips p' + pot rs' = chips p + pot rs
       \<and> (folded p' \<and> \<not> folded p \<longrightarrow> chips p' = chips p \<and> pot rs' = pot rs)
       \<and> (actionHistory rs' = actionHistory rs @ [name p @ '' checks.'']
            \<longrightarrow> chips p' = chips p \<and> pot rs' = pot rs)
       \<and> (0 \<le> sint (chips p) \<and> 0 \<le> sint (pot rs) \<and> 0 \<le> sint (currentBet rs)
            \<and> sint (chips p) + sint (pot rs) < 2 ^ 31 \<and> sint (currentBet rs) + 20 < 2 ^ 31
            \<longrightarrow> sint (chips p') + sint (pot rs') = sint (chips p) + sint (pot rs))
   | Inl err \<Rightarrow> err = Blocked \<and> \<not> isBot p \<and> \<not> folded p"
proof (cases "takeAction e rs cc n p")
  case (Inl err)
  with takeAction_Inl [OF Inl] show ?thesis by simp
next
  case (Inr res)
  obtain p' rs' e' where res: "res = (p', rs', e')" by (cases res)
  with Inr have run: "takeAction e rs cc n p = Inr (p', rs', e')" by simp
  have sum: "chips p' + pot rs' = chips p + pot rs"
    using run by (rule takeAction_conserve)
  have "pot rs' = chips p + pot rs - chips p'"
    using sum by (metis add_diff_cancel_left')
  then have diff: "pot rs' - pot rs = chips p - chips p'" by simp
  have fold: "folded p' \<and> \<not> folded p \<longrightarrow> chips p' = chips p \<and> pot rs' = pot rs"
    using run by (cases rule: takeAction_cases) (auto dest: botAction_fold humanAction_fold)
  have check: "actionHistory rs' = actionHistory rs @ [name p @ '' checks.'']
          \<longrightarrow> chips p' = chips p \<and> pot rs' = pot rs"
    using run by (cases rule: takeAction_cases) (auto dest: botAction_check humanAction_check)
  have ints: "sint (chips p') + sint (pot rs') = sint (chips p) + sint (pot rs)"
    if h: "0 \<le> sint (chips p)" "0 \<le> sint (pot rs)" "0 \<le> sint (currentBet rs)"
       "sint (chips p) + sint (pot rs) < 2 ^ 31" "sint (currentBet rs) + 20 < 2 ^ 31"
  proof -
    from takeAction_wager [OF h(1,3,5) run] obtain w where
      w: "0 \<le> sint w" "sint w \<le> sint (chips p)" "chips p' = chips p - w" "pot rs' = pot rs + w"
      by blast
    have "sint (chips p - w) = sint (chips p) - sint w"
      using w(1,2) h(1) sint_range [of "chips p"] by (intro sint_sub_ok) linarith+
    moreover have "sint (pot rs + w) = sint (pot rs) + sint w"
      using w(1,2) h(2,4) by (intro sint_add_ok) linarith+
    ultimately show ?thesis using w(3,4) by simp
  qed
  from sum diff fold check ints run show ?thesis by simp
qed

text \<open>Unfolding rules for running the model on sample inputs.\<close>

lemmas run_defs = takeAction_def chooseAction_def rand_def botAction_def envConst_def isBot_def
  Player1_def Card0_def evaluateHandStrength_def addScore_def to_string_def natToString.simps
  word_sle_eq word_sless_alt

text \<open>A raise of 50 by an automated player with 1000 chips into a pot of 10.\<close>

theorem C10_takeAction_conserves_witness:
  "takeAction (envConst 0 []) \<lparr>currentBet = 0, pot = 10, actionHistory = []\<rparr> [] 0 (Player1 ''Bot 1'')
     = Inr ((Player1 ''Bot 1'')\<lparr>chips := 950\<rparr>,
            \<lparr>currentBet = 50, pot = 60, actionHistory = [''Bot 1 raises to 50 chips.'']\<rparr>,
            (envConst 0 [])\<lparr>rnd_pos := 1\<rparr>)
   \<and> (60 :: cint) - 10 = 1000 - 950 \<and> sint (950 :: cint) + sint (60 :: cint) = 1010"
proof -
  have run: "takeAction (envConst 0 []) \<lparr>currentBet = 0, pot = 10, actionHistory = []\<rparr> [] 0
      (Player1 ''Bot 1'')
     = Inr ((Player1 ''Bot 1'')\<lparr>chips := 950\<rparr>,
            \<lparr>currentBet = 50, pot = 60, actionHistory = [''Bot 1 raises to 50 chips.'']\<rparr>,
            (envConst 0 [])\<lparr>rnd_pos := 1\<rparr>)"
    by (simp add: run_defs)
  from C10_takeAction_conserves [where e = "envConst 0 []"
      and rs = "\<lparr>currentBet = 0, pot = 10, actionHistory = []\<rparr>"
      and cc = "[]" and n = 0 and p = "Player1 ''Bot 1''"] run
  show ?thesis by (simp add: Player1_def)
qed

text \<open>
  Claim C7, amended. For every player and round state with non-negative chips, pot and
  current bet such that \<open>chips + pot\<close> and \<open>currentBet + 20\<close> do not exceed the largest
  \<open>int\<close>, a call of \<open>takeAction\<close> (bet or raise, call, check, fold or bluff) leaves
  the acting player's chips, the pot and the current bet non-negative; the only way
  not to return is a human player whose input has ended.
\<close>

theorem C7_takeAction_nonneg:
  assumes "0 \<le>s chips p" "0 \<le>s pot rs" "0 \<le>s currentBet rs"
    and "sint (chips p) + sint (pot rs) < 2 ^ 31" "sint (currentBet rs) + 20 < 2 ^ 31"
  shows "case takeAction e rs cc n p of
           Inr (p', rs', e') \<Rightarrow> 0 \<le>s chips p' \<and> 0 \<le>s pot rs' \<and> 0 \<le>s currentBet rs'
         | Inl err \<Rightarrow> err = Blocked \<and> \<not> isBot p \<and> \<not> folded p"
proof (cases "takeAction e rs cc n p")
  case (Inl err)
  with takeAction_Inl [OF Inl] show ?thesis by simp
next
  case (Inr res)
  obtain p' rs' e' where res: "res = (p', rs', e')" by (cases res)
  from assms(1-3) have nn: "0 \<le> sint (chips p)" "0 \<le> sint (pot rs)" "0 \<le> sint (currentBet rs)"
    by (simp_all add: word_sle_eq)
  from Inr res have run: "takeAction e rs cc n p = Inr (p', rs', e')" by simp
  from takeAction_wager [OF nn(1,3) assms(5) run] obtain w where
    w: "0 \<le> sint w" "sint w \<le> sint (chips p)" "chips p' = chips p - w" "pot rs' = pot rs + w"
       "0 \<le> sint (currentBet rs')"
    by blast
  have "sint (chips p - w) = sint (chips p) - sint w"
    using w(1,2) nn(1) sint_range [of "chips p"] by (intro sint_sub_ok) linarith+
  with w(2,3) have c: "0 \<le> sint (chips p')" by simp
  have "sint (pot rs + w) = sint (pot rs) + sint w"
    using w(1,2) nn(2) assms(4) by (intro sint_add_ok) linarith+
  with w(1,4) nn(2) have q: "0 \<le> sint (pot rs')" by simp
  from c q w(5) run show ?thesis by (simp add: word_sle_eq)
qed

text \<open>The same raise as above satisfies the hypotheses.\<close>

theorem C7_takeAction_nonneg_witness:
  "0 \<le>s chips (Player1 ''Bot 1'') \<and> 0 \<le>s (10 :: cint) \<and> 0 \<le>s (0 :: cint)
   \<and> sint (chips (Player1 ''Bot 1'')) + sint (10 :: cint) < 2 ^ 31 \<and> sint (0 :: cint) + 20 < 2 ^ 31
   \<and> (case takeAction (envConst 0 []) \<lparr>currentBet = 0, pot = 10, actionHistory = []\<rparr> [] 0
              (Player1 ''Bot 1'') of
         Inr (p', rs', e') \<Rightarrow> 0 \<le>s chips p' \<and> 0 \<le>s pot rs' \<and> 0 \<le>s currentBet rs'
       | Inl err \<Rightarrow> err = Blocked \<and> \<not> isBot (Player1 ''Bot 1'') \<and> \<not> folded (Player1 ''Bot 1''))"
proof -
  have h: "0 \<le>s chips (Player1 ''Bot 1'')" "0 \<le>s pot \<lparr>currentBet = 0, pot = 10, actionHistory = []\<rparr>"
    "0 \<le>s currentBet \<lparr>currentBet = 0, pot = 10, actionHistory = []\<rparr>"
    "sint (chips (Player1 ''Bot 1'')) + sint (pot \<lparr>currentBet = 0, pot = 10, actionHistory = []\<rparr>) < 2 ^ 31"
    "sint (currentBet \<lparr>currentBet = 0, pot = 10, actionHistory = []\<rparr>) + 20 < 2 ^ 31"
    by (simp_all add: Player1_def word_sle_eq)
  from C7_takeAction_nonneg [OF h, of "envConst 0 []" "[]" 0] h show ?thesis
    by simp
qed

text \<open>
  Claim C7 as stated fails where the addition to the pot wraps around: with the pot at
  the largest \<open>int\<close>, a raise of 50 by a player with 1000 chips leaves a negative pot.
\<close>

theorem C7_overflow_counterexample:
  "0 \<le>s chips (Player1 ''Bot 1'') \<and> 0 \<le>s (2147483647 :: cint) \<and> 0 \<le>s (0 :: cint)
   \<and> takeAction (envConst 0 []) \<lparr>currentBet = 0, pot = 2147483647, actionHistory = []\<rparr> [] 0
        (Player1 ''Bot 1'')
     = Inr ((Player1 ''Bot 1'')\<lparr>chips := 950\<rparr>,
            \<lparr>currentBet = 50, pot = 2147483697, actionHistory = [''Bot 1 raises to 50 chips.'']\<rparr>,
            (envConst 0 [])\<lparr>rnd_pos := 1\<rparr>)
   \<and> (2147483697 :: cint) <s 0 \<and> sint (2147483697 :: cint) = - 2147483599"
  by (simp add: run_defs)

text \<open>
  Claim C5, amended. A player who chooses Call with chips strictly below the current bet
  moves no chips: the player, the pot and the current bet are unchanged and no error is
  raised. For an automated player (action 1) a check is appended to the action history;
  for a human player (input \<open>Call\<close>) nothing is appended to the action history.
\<close>

theorem C5_call_without_chips:
  "(\<not> folded p \<and> isBot p \<and> chooseAction e cc n p = (1, e') \<and> chips p <s currentBet rs
      \<longrightarrow> takeAction e rs cc n p
            = Inr (p, rs\<lparr>actionHistory := actionHistory rs @ [name p @ '' checks.'']\<rparr>, e'))
   \<and> (\<not> folded p \<and> \<not> isBot p \<and> input e = Word ''Call'' # ts \<and> chips p <s currentBet rs
      \<longrightarrow> takeAction e rs cc n p = Inr (p, rs, e\<lparr>input := ts\<rparr>))"
  by (auto simp: takeAction_def botAction_def word_sle_eq word_sless_alt)

text \<open>An automated and a human player, each with 1000 chips against a bet of 2000.\<close>

theorem C5_call_without_chips_witness:
  "chooseAction (envConst 1 []) [] 0 (Player1 ''Bot 1'') = (1, (envConst 1 [])\<lparr>rnd_pos := 1\<rparr>)
   \<and> chips (Player1 ''Bot 1'') <s 2000
   \<and> takeAction (envConst 1 []) \<lparr>currentBet = 2000, pot = 70, actionHistory = []\<rparr> [] 0
        (Player1 ''Bot 1'')
     = Inr (Player1 ''Bot 1'',
            \<lparr>currentBet = 2000, pot = 70, actionHistory = [''Bot 1 checks.'']\<rparr>,
            (envConst 1 [])\<lparr>rnd_pos := 1\<rparr>)
   \<and> takeAction (envConst 1 [Word ''Call'', Word ''Fold'']) \<lparr>currentBet = 2000, pot = 70, actionHistory = []\<rparr> [] 0
        (Player1 ''Ann'')
     = Inr (Player1 ''Ann'', \<lparr>currentBet = 2000, pot = 70, actionHistory = []\<rparr>,
            (envConst 1 [Word ''Call'', Word ''Fold''])\<lparr>input := [Word ''Fold'']\<rparr>)"
proof -
  have b: "\<not> folded (Player1 ''Bot 1'') \<and> isBot (Player1 ''Bot 1'')
      \<and> chooseAction (envConst 1 []) [] 0 (Player1 ''Bot 1'') = (1, (envConst 1 [])\<lparr>rnd_pos := 1\<rparr>)
      \<and> chips (Player1 ''Bot 1'') <s currentBet \<lparr>currentBet = 2000, pot = 70, actionHistory = []\<rparr>"
    by (simp add: run_defs)
  have h: "\<not> folded (Player1 ''Ann'') \<and> \<not> isBot (Player1 ''Ann'')
      \<and> input (envConst 1 [Word ''Call'', Word ''Fold'']) = Word ''Call'' # [Word ''Fold'']
      \<and> chips (Player1 ''Ann'') <s currentBet \<lparr>currentBet = 2000, pot = 70, actionHistory = []\<rparr>"
    by (simp add: run_defs)
  from b C5_call_without_chips [of "Player1 ''Bot 1''" "envConst 1 []" "[]" 0
      "(envConst 1 [])\<lparr>rnd_pos := 1\<rparr>" "\<lparr>currentBet = 2000, pot = 70, actionHistory = []\<rparr>"]
  have r1: "takeAction (envConst 1 []) \<lparr>currentBet = 2000, pot = 70, actionHistory = []\<rparr> [] 0
        (Player1 ''Bot 1'')
     = Inr (Player1 ''Bot 1'',
            \<lparr>currentBet = 2000, pot = 70, actionHistory = [''Bot 1 checks.'']\<rparr>,
            (envConst 1 [])\<lparr>rnd_pos := 1\<rparr>)"
    by (simp add: Player1_def)
  from h C5_call_without_chips [of "Player1 ''Ann''" "envConst 1 [Word ''Call'', Word ''Fold'']" "[]" 0 _
      "\<lparr>currentBet = 2000, pot = 70, actionHistory = []\<rparr>" "[Word ''Fold'']"]
  have r2: "takeAction (envConst 1 [Word ''Call'', Word ''Fold'']) \<lparr>currentBet = 2000, pot = 70, actionHistory = []\<rparr> [] 0
        (Player1 ''Ann'')
     = Inr (Player1 ''Ann'', \<lparr>currentBet = 2000, pot = 70, actionHistory = []\<rparr>,
            (envConst 1 [Word ''Call'', Word ''Fold''])\<lparr>input := [Word ''Fold'']\<rparr>)"
    by blast
  from b r1 r2 show ?thesis by simp
qed

text \<open>
  Claim C5 as stated fails for a human player: the call is dropped with a console message
  only, and the action history stays empty.
\<close>

theorem C5_human_call_counterexample:
  "\<not> isBot (Player1 ''Ann'') \<and> chips (Player1 ''Ann'') <s 2000
   \<and> takeAction (envConst 1 [Word ''Call'']) \<lparr>currentBet = 2000, pot = 70, actionHistory = []\<rparr> [] 0
        (Player1 ''Ann'')
     = Inr (Player1 ''Ann'', \<lparr>currentBet = 2000, pot = 70, actionHistory = []\<rparr>,
            (envConst 1 [Word ''Call''])\<lparr>input := []\<rparr>)"
  by (simp add: run_defs)

section \<open>Showdown\<close>

lemma score_nonneg: "0 \<le> evaluateHandStrength p cc n"
proof -
  have "0 \<le> (\<Sum>r \<leftarrow> rs. spec_points (f r))" for rs :: "string list" and f
    by (rule sum_list_nonneg) (auto simp: spec_points_def)
  then show ?thesis by (simp add: score_refines spec_score_def)
qed

lemma winnerInv_step:
  assumes "winnerInv pre cc n b w"
  shows "winnerInv (pre @ [p]) cc n
           (if \<not> folded p \<and> b < evaluateHandStrength p cc n then evaluateHandStrength p cc n else b)
           (if \<not> folded p \<and> b < evaluateHandStrength p cc n then Some (length pre) else w)"
proof (cases "\<not> folded p \<and> b < evaluateHandStrength p cc n")
  case True
  have "evaluateHandStrength ((pre @ [p]) ! j) cc n < evaluateHandStrength p cc n"
    if "j < length pre" "\<not> folded ((pre @ [p]) ! j)" for j
  proof (cases w)
    case None
    with assms that show ?thesis by (auto simp: winnerInv_def nth_append)
  next
    case (Some k)
    with assms that have "evaluateHandStrength (pre ! j) cc n \<le> b"
      by (auto simp: winnerInv_def nth_append)
    with True that show ?thesis by (simp add: nth_append)
  qed
  with True show ?thesis
    by (auto simp: winnerInv_def nth_append less_Suc_eq intro: less_imp_le)
next
  case False
  show ?thesis
  proof (cases w)
    case None
    with assms False score_nonneg [of p cc n] show ?thesis
      by (auto simp: winnerInv_def nth_append less_Suc_eq)
  next
    case (Some k)
    with assms False show ?thesis
      by (auto simp: winnerInv_def nth_append less_Suc_eq)
  qed
qed

lemma findWinner_Cons:
  "findWinner (p # ps) cc n i b w =
     findWinner ps cc n (Suc i)
       (if \<not> folded p \<and> b < evaluateHandStrength p cc n then evaluateHandStrength p cc n else b)
       (if \<not> folded p \<and> b < evaluateHandStrength p cc n then Some i else w)"
  by (simp add: Let_def)

lemma findWinner_inv:
  "winnerInv pre cc n b w \<Longrightarrow> \<exists>b'. winnerInv (pre @ rest) cc n b' (findWinner rest cc n (length pre) b w)"
proof (induction rest arbitrary: pre b w)
  case Nil
  then show ?case by auto
next
  case (Cons p rest)
  let ?b = "if \<not> folded p \<and> b < evaluateHandStrength p cc n then evaluateHandStrength p cc n else b"
  let ?w = "if \<not> folded p \<and> b < evaluateHandStrength p cc n then Some (length pre) else w"
  from winnerInv_step [OF Cons.prems, of p] have "winnerInv (pre @ [p]) cc n ?b ?w" .
  from Cons.IH [OF this] obtain b' where
    "winnerInv ((pre @ [p]) @ rest) cc n b' (findWinner rest cc n (length (pre @ [p])) ?b ?w)" ..
  then have "winnerInv (pre @ p # rest) cc n b' (findWinner (p # rest) cc n (length pre) b w)"
    unfolding findWinner_Cons by simp
  then show ?case ..
qed

lemma findWinner_spec:
  "case findWinner ps cc n 0 (- 1) None of
     None \<Rightarrow> (\<forall>j < length ps. folded (ps ! j))
   | Some w \<Rightarrow> w < length ps \<and> \<not> folded (ps ! w)
          \<and> (\<forall>j < w. \<not> folded (ps ! j) \<longrightarrow>
                evaluateHandStrength (ps ! j) cc n < evaluateHandStrength (ps ! w) cc n)
          \<and> (\<forall>j < length ps. \<not> folded (ps ! j) \<longrightarrow>
                evaluateHandStrength (ps ! j) cc n \<le> evaluateHandStrength (ps ! w) cc n)"
proof -
  have "winnerInv [] cc n (- 1) None" by (simp add: winnerInv_def)
  from findWinner_inv [OF this, of ps] show ?thesis
    by (auto simp: winnerInv_def split: option.splits)
qed


text \<open>
  Claim C1, amended. For every showdown over a roster with at least one non-folded
  player, the winner is the last non-folded player (in roster index order) whose score
  is strictly greater than every earlier non-folded player's score, that is, the first
  non-folded player holding the highest score; that winner's chips become chips plus pot
  (the program's \<open>int\<close> addition), their \<open>gamesWon\<close> and \<open>handsWon\<close> each increase
  by one, every other player is unchanged, and the pot is set to zero. If every player
  has folded, no player changes and the pot keeps its value.
\<close>

theorem C1_showdown_winner:
  "((\<exists>i < length ps. \<not> folded (ps ! i)) \<longrightarrow>
      (\<exists>w. findWinner ps cc n 0 (- 1) None = Some w
         \<and> beatsEarlier ps cc n w
         \<and> (\<forall>j. w < j \<longrightarrow> \<not> beatsEarlier ps cc n j)
         \<and> (\<forall>j < length ps. \<not> folded (ps ! j) \<longrightarrow>
               evaluateHandStrength (ps ! j) cc n \<le> evaluateHandStrength (ps ! w) cc n)
         \<and> showdown ps cc n pot0 =
             (ps[w := (ps ! w)\<lparr>chips := chips (ps ! w) + pot0,
                                gamesWon := gamesWon (ps ! w) + 1,
                                handsWon := handsWon (ps ! w) + 1\<rparr>], 0)))
   \<and> ((\<forall>i < length ps. folded (ps ! i)) \<longrightarrow> showdown ps cc n pot0 = (ps, pot0))"
proof (cases "findWinner ps cc n 0 (- 1) None")
  case None
  with findWinner_spec [of ps cc n] have "\<forall>j < length ps. folded (ps ! j)" by simp
  with None show ?thesis by (simp add: showdown_def)
next
  case (Some w)
  with findWinner_spec [of ps cc n] have
    w: "w < length ps" "\<not> folded (ps ! w)"
    and early: "\<forall>j < w. \<not> folded (ps ! j) \<longrightarrow>
                evaluateHandStrength (ps ! j) cc n < evaluateHandStrength (ps ! w) cc n"
    and best: "\<forall>j < length ps. \<not> folded (ps ! j) \<longrightarrow>
                evaluateHandStrength (ps ! j) cc n \<le> evaluateHandStrength (ps ! w) cc n"
    by simp_all
  from w early have b: "beatsEarlier ps cc n w" by (simp add: beatsEarlier_def)
  have later: "\<not> beatsEarlier ps cc n j" if "w < j" for j
  proof
    assume a: "beatsEarlier ps cc n j"
    then have "j < length ps" "\<not> folded (ps ! j)" by (simp_all add: beatsEarlier_def)
    with best have "evaluateHandStrength (ps ! j) cc n \<le> evaluateHandStrength (ps ! w) cc n"
      by simp
    moreover from a that w(2)
    have "evaluateHandStrength (ps ! w) cc n < evaluateHandStrength (ps ! j) cc n"
      by (simp add: beatsEarlier_def)
    ultimately show False by simp
  qed
  have s: "showdown ps cc n pot0 =
             (ps[w := (ps ! w)\<lparr>chips := chips (ps ! w) + pot0,
                                gamesWon := gamesWon (ps ! w) + 1,
                                handsWon := handsWon (ps ! w) + 1\<rparr>], 0)"
    using Some by (simp add: showdown_def award_def)
  from w have "\<not> (\<forall>i < length ps. folded (ps ! i))" by blast
  with Some b later best s show ?thesis by blast
qed

text \<open>Unfolding rules for the sample rosters.\<close>

lemmas roster_defs = rosterAB_def rosterFolded_def holding_def receiveCard_def Card2_def
  Card0_def Player1_def

text \<open>The two sample rosters, with a pot of 100 and no community cards.\<close>

theorem C1_showdown_winner_witness:
  "findWinner rosterAB [] 0 0 (- 1) None = Some 1
   \<and> showdown rosterAB [] 0 100 =
       (rosterAB[1 := (rosterAB ! 1)\<lparr>chips := chips (rosterAB ! 1) + 100,
                                gamesWon := gamesWon (rosterAB ! 1) + 1,
                                handsWon := handsWon (rosterAB ! 1) + 1\<rparr>], 0)
   \<and> showdown rosterFolded [] 0 100 = (rosterFolded, 100)"
proof -
  have "0 < length rosterAB \<and> \<not> folded (rosterAB ! 0)" by (simp add: roster_defs)
  then have a: "\<exists>i < length rosterAB. \<not> folded (rosterAB ! i)" by blast
  have f: "\<forall>i < length rosterFolded. folded (rosterFolded ! i)"
    by (simp add: roster_defs less_Suc_eq)
  have w: "findWinner rosterAB [] 0 0 (- 1) None = Some 1"
    by (simp add: roster_defs evaluateHandStrength_def addScore_def)
  from a w C1_showdown_winner [of rosterAB "[]" 0 100]
  have r1: "showdown rosterAB [] 0 100 =
       (rosterAB[1 := (rosterAB ! 1)\<lparr>chips := chips (rosterAB ! 1) + 100,
                                gamesWon := gamesWon (rosterAB ! 1) + 1,
                                handsWon := handsWon (rosterAB ! 1) + 1\<rparr>], 0)"
    by auto
  from f C1_showdown_winner [of rosterFolded "[]" 0 100]
  have r2: "showdown rosterFolded [] 0 100 = (rosterFolded, 100)" by blast
  from w r1 r2 show ?thesis by blast
qed

text \<open>
  Claim C1 as stated fails: the first non-folded player whose score is strictly greater
  than every earlier non-folded score is simply the first non-folded player (Ann, index
  0, score 0), while the code awards the pot to Bob (index 1, score 2).
\<close>

theorem C1_first_record_counterexample:
  "claimedWinner rosterAB [] 0 = Some 0
   \<and> findWinner rosterAB [] 0 0 (- 1) None = Some 1
   \<and> map chips rosterAB = [1000, 1000]
   \<and> map chips (fst (showdown rosterAB [] 0 100)) = [1000, 1100]
   \<and> map gamesWon (fst (showdown rosterAB [] 0 100)) = [0, 1]
   \<and> map handsWon (fst (showdown rosterAB [] 0 100)) = [0, 1]"
  by (simp add: claimedWinner_def beatsEarlier_def showdown_def award_def roster_defs
      evaluateHandStrength_def addScore_def)

section \<open>Re-ranking by merge sort\<close>

lemma mergeLists_Nil: "mergeLists [] rs = rs"
  by (cases rs) simp_all

lemma mergeLoop_eq:
  "k + length ls + length rs \<le> length arr \<Longrightarrow>
   mergeLoop ls rs arr k = take k arr @ mergeLists ls rs @ drop (k + length ls + length rs) arr"
proof (induction ls rs arr k rule: mergeLoop.induct)
  case (1 l ls r rs arr k)
  then have k: "k < length arr" by simp
  have t: "take (Suc k) (arr[k := x]) = take k arr @ [x]" for x
    using k by (simp add: take_Suc_conv_app_nth)
  show ?case
  proof (cases "chips r \<le>s chips l")
    case True
    with 1 t show ?thesis by simp
  next
    case False
    with 1 t show ?thesis by simp
  qed
next
  case (2 l ls arr k)
  then have k: "k < length arr" by simp
  have t: "take (Suc k) (arr[k := x]) = take k arr @ [x]" for x
    using k by (simp add: take_Suc_conv_app_nth)
  from 2 t show ?case by simp
next
  case (3 r rs arr k)
  then have k: "k < length arr" by simp
  have t: "take (Suc k) (arr[k := x]) = take k arr @ [x]" for x
    using k by (simp add: take_Suc_conv_app_nth)
  from 3 t show ?case by (simp add: mergeLists_Nil)
next
  case (4 arr k)
  then show ?case by simp
qed

lemma mset_mergeLists: "mset (mergeLists ls rs) = mset ls + mset rs"
  by (induction ls rs rule: mergeLists.induct) auto

lemma length_mergeLists: "length (mergeLists ls rs) = length ls + length rs"
  by (induction ls rs rule: mergeLists.induct) auto

lemma set_mergeLists: "set (mergeLists ls rs) = set ls \<union> set rs"
  by (induction ls rs rule: mergeLists.induct) auto

lemma chipsDescending_Cons:
  "chipsDescending (p # ps) \<longleftrightarrow> (\<forall>q \<in> set ps. sint (chips q) \<le> sint (chips p)) \<and> chipsDescending ps"
  by (simp add: chipsDescending_def)

lemma chipsDescending_mergeLists:
  "chipsDescending ls \<Longrightarrow> chipsDescending rs \<Longrightarrow> chipsDescending (mergeLists ls rs)"
proof (induction ls rs rule: mergeLists.induct)
  case (1 l ls r rs)
  show ?case
  proof (cases "chips r \<le>s chips l")
    case True
    then have rl: "sint (chips r) \<le> sint (chips l)" by (simp add: word_sle_eq)
    from 1 True have "chipsDescending (mergeLists ls (r # rs))"
      by (simp add: chipsDescending_Cons)
    moreover have "\<forall>q \<in> set (mergeLists ls (r # rs)). sint (chips q) \<le> sint (chips l)"
      using "1.prems" rl by (auto simp: set_mergeLists chipsDescending_Cons)
    ultimately show ?thesis using True by (simp add: chipsDescending_Cons)
  next
    case False
    then have lr: "sint (chips l) \<le> sint (chips r)" by (simp add: word_sle_eq)
    from 1 False have "chipsDescending (mergeLists (l # ls) rs)"
      by (simp add: chipsDescending_Cons)
    moreover have "\<forall>q \<in> set (mergeLists (l # ls) rs). sint (chips q) \<le> sint (chips r)"
      using "1.prems" lr by (auto simp: set_mergeLists chipsDescending_Cons)
    ultimately show ?thesis using False by (simp add: chipsDescending_Cons)
  qed
qed (simp_all add: chipsDescending_def)

lemma filter_mergeLists:
  "chipsDescending ls \<Longrightarrow>
   filter (\<lambda>p. chips p = c) (mergeLists ls rs)
     = filter (\<lambda>p. chips p = c) ls @ filter (\<lambda>p. chips p = c) rs"
proof (induction ls rs rule: mergeLists.induct)
  case (1 l ls r rs)
  show ?case
  proof (cases "chips r \<le>s chips l")
    case True
    with 1 show ?thesis by (simp add: chipsDescending_Cons)
  next
    case False
    then have lr: "sint (chips l) < sint (chips r)" by (simp add: word_sle_eq)
    have "chips q \<noteq> chips r" if "q \<in> set (l # ls)" for q
    proof -
      from that "1.prems" have "sint (chips q) \<le> sint (chips l)"
        by (auto simp: chipsDescending_Cons)
      with lr show ?thesis by auto
    qed
    then have none: "chips r = c \<Longrightarrow> filter (\<lambda>p. chips p = c) (l # ls) = []"
      by (auto simp: filter_empty_conv)
    from 1 False have "filter (\<lambda>p. chips p = c) (mergeLists (l # ls) rs)
        = filter (\<lambda>p. chips p = c) (l # ls) @ filter (\<lambda>p. chips p = c) rs"
      by simp
    with False none show ?thesis by (cases "chips r = c") simp_all
  qed
qed simp_all


lemma merge_app:
  assumes "length A = nat left" "0 \<le> left" "int (length S1) = mid - left + 1"
    "int (length S2) = right - mid"
  shows "merge (A @ S1 @ S2 @ B) left mid right = A @ mergeLists S1 S2 @ B"
proof -
  from assms have n1: "nat (mid - left + 1) = length S1" and n2: "nat (right - mid) = length S2"
    and m: "nat (mid + 1) = length A + length S1"
    by linarith+
  have L: "take (nat (mid - left + 1)) (drop (nat left) (A @ S1 @ S2 @ B)) = S1"
    using assms(1) n1 by simp
  have "drop (nat (mid + 1)) (A @ S1 @ S2 @ B) = S2 @ B"
    using m by simp
  then have R: "take (nat (right - mid)) (drop (nat (mid + 1)) (A @ S1 @ S2 @ B)) = S2"
    using n2 by simp
  have "mergeLoop S1 S2 (A @ S1 @ S2 @ B) (length A)
      = take (length A) (A @ S1 @ S2 @ B) @ mergeLists S1 S2
          @ drop (length A + length S1 + length S2) (A @ S1 @ S2 @ B)"
    by (rule mergeLoop_eq) simp
  then have "mergeLoop S1 S2 (A @ S1 @ S2 @ B) (nat left) = A @ mergeLists S1 S2 @ B"
    using assms(1) by simp
  with L R show ?thesis by (simp add: merge_def Let_def)
qed

lemma mergeSort_app:
  assumes "length A = nat left" "0 \<le> left" "int (length M) = right - left + 1"
  shows "\<exists>S. mergeSort (A @ M @ B) left right = A @ S @ B \<and> length S = length M
            \<and> chipsDescending S \<and> mset S = mset M
            \<and> (\<forall>c. filter (\<lambda>p. chips p = c) S = filter (\<lambda>p. chips p = c) M)"
  using assms
proof (induction "length M" arbitrary: A M B left right rule: less_induct)
  case less
  show ?case
  proof (cases "left < right")
    case False
    with less.prems have "length M \<le> 1" by linarith
    then have "chipsDescending M"
      by (cases M) (auto simp: chipsDescending_def)
    with False show ?thesis by (simp add: mergeSort.simps)
  next
    case True
    define mid where "mid = left + (right - left) div 2"
    from True have mid: "left \<le> mid" "mid < right" by (simp_all add: mid_def)
    define M1 where "M1 = take (nat (mid - left + 1)) M"
    define M2 where "M2 = drop (nat (mid - left + 1)) M"
    have M: "M = M1 @ M2" by (simp add: M1_def M2_def)
    from less.prems mid have l1: "int (length M1) = mid - left + 1"
      by (simp add: M1_def)
    from less.prems mid have l2: "int (length M2) = right - mid"
      by (simp add: M2_def)
    have "length M = length M1 + length M2" by (simp add: M)
    with l1 l2 mid have small: "length M1 < length M" "length M2 < length M"
      by linarith+
    from less.hyps [OF small(1) less.prems(1,2) l1, of "M2 @ B"] obtain S1 where
      S1: "mergeSort (A @ M1 @ M2 @ B) left mid = A @ S1 @ M2 @ B" "length S1 = length M1"
        "chipsDescending S1" "mset S1 = mset M1"
        "\<forall>c. filter (\<lambda>p. chips p = c) S1 = filter (\<lambda>p. chips p = c) M1"
      by auto
    have lA: "length (A @ S1) = nat (mid + 1)"
      using less.prems(1,2) l1 S1(2) by simp
    have "int (length M2) = right - (mid + 1) + 1" using l2 by simp
    from less.hyps [OF small(2) lA _ this, of B] mid less.prems(2) obtain S2 where
      S2: "mergeSort ((A @ S1) @ M2 @ B) (mid + 1) right = (A @ S1) @ S2 @ B"
        "length S2 = length M2" "chipsDescending S2" "mset S2 = mset M2"
        "\<forall>c. filter (\<lambda>p. chips p = c) S2 = filter (\<lambda>p. chips p = c) M2"
      by auto
    have "mergeSort (A @ M @ B) left right
        = merge (mergeSort (mergeSort (A @ M @ B) left mid) (mid + 1) right) left mid right"
      using True by (subst mergeSort.simps) (simp add: mid_def Let_def)
    also have "\<dots> = merge (A @ S1 @ S2 @ B) left mid right"
      using S1(1) S2(1) by (simp add: M)
    also have "\<dots> = A @ mergeLists S1 S2 @ B"
      using less.prems(1,2) l1 l2 S1(2) S2(2) by (intro merge_app) simp_all
    finally have eq: "mergeSort (A @ M @ B) left right = A @ mergeLists S1 S2 @ B" .
    have "length (mergeLists S1 S2) = length M"
      by (simp add: length_mergeLists S1(2) S2(2) M)
    moreover have "chipsDescending (mergeLists S1 S2)"
      using S1(3) S2(3) by (rule chipsDescending_mergeLists)
    moreover have "mset (mergeLists S1 S2) = mset M"
      by (simp add: mset_mergeLists S1(4) S2(4) M)
    moreover have "filter (\<lambda>p. chips p = c) (mergeLists S1 S2) = filter (\<lambda>p. chips p = c) M" for c
      using S1(5) S2(5) by (simp add: filter_mergeLists [OF S1(3)] M)
    ultimately show ?thesis using eq by blast
  qed
qed

text \<open>
  Claim C8. For every player array, the merge sort used for re-ranking returns a
  permutation of the input, sorted by chip count in descending order, and it is stable:
  for every chip count, the players holding it appear in the output in the order they had
  in the input.
\<close>

theorem C8_mergeSort_stable:
  "mset (sortRoster ps) = mset ps
   \<and> chipsDescending (sortRoster ps)
   \<and> filter (\<lambda>p. chips p = c) (sortRoster ps) = filter (\<lambda>p. chips p = c) ps"
proof -
  have "int (length ps) = (int (length ps) - 1) - 0 + 1" by simp
  from mergeSort_app [of "[]" 0 ps "int (length ps) - 1" "[]", OF _ _ this]
  show ?thesis by (auto simp: sortRoster_def)
qed

text \<open>On the sample roster the two players with 300 chips keep their order.\<close>

theorem C8_mergeSort_stable_witness:
  "map name (filter (\<lambda>p. chips p = 300) (sortRoster rosterTie)) = [''Ann'', ''Cy'']
   \<and> chipsDescending (sortRoster rosterTie)"
  using C8_mergeSort_stable [of rosterTie 300]
  by (simp add: rosterTie_def Player1_def)

section \<open>Ranking tree\<close>

lemma set_inOrder_insert: "set (inOrder (insert_node t p)) = insert p (set (inOrder t))"
  by (induction t) auto

lemma mset_inOrder_insert: "mset (inOrder (insert_node t p)) = add_mset p (mset (inOrder t))"
  by (induction t) auto

lemma rankOrdered_insert: "rankOrdered t \<Longrightarrow> rankOrdered (insert_node t p)"
  by (induction t) (auto simp: set_inOrder_insert word_sless_alt)

lemma foldl_addPlayer:
  "rankOrdered t \<Longrightarrow> rankOrdered (foldl addPlayer t ps)
     \<and> mset (inOrder (foldl addPlayer t ps)) = mset (inOrder t) + mset ps"
  by (induction ps arbitrary: t) (simp_all add: addPlayer_def rankOrdered_insert mset_inOrder_insert)

lemma rankOrdered_descending: "rankOrdered t \<Longrightarrow> chipsDescending (inOrder t)"
proof (induction t)
  case Leaf
  then show ?case by (simp add: chipsDescending_def)
next
  case (Node l q r)
  then have "chipsDescending (inOrder l)" "chipsDescending (inOrder r)" by simp_all
  moreover from Node.prems have "\<forall>x \<in> set (inOrder l). \<forall>y \<in> set (inOrder r).
      sint (chips y) \<le> sint (chips x)"
    by fastforce
  moreover from Node.prems have "\<forall>x \<in> set (inOrder l). sint (chips q) \<le> sint (chips x)"
    by fastforce
  ultimately show ?case using Node.prems
    by (auto simp: chipsDescending_def sorted_wrt_append)
qed

lemma buildRanking_descending: "chipsDescending (inOrder (buildRanking ps))"
  using foldl_addPlayer [of Leaf ps] by (simp add: buildRanking_def rankOrdered_descending)

text \<open>
  Claim C9, amended. The insertion into the ranking tree recurses left exactly when the
  new player's chips strictly exceed the current node's and right otherwise; for every
  insertion sequence, with or without equal chip counts, the in-order traversal of
  the resulting tree lists exactly the inserted players, sorted in non-increasing chip
  order.
\<close>

theorem C9_ranking_tree_sorted:
  "insert_node Leaf p = Node Leaf p Leaf
   \<and> insert_node (Node l q r) p =
       (if chips q <s chips p then Node (insert_node l p) q r else Node l q (insert_node r p))
   \<and> chipsDescending (inOrder (buildRanking ps))
   \<and> mset (inOrder (buildRanking ps)) = mset ps"
  using foldl_addPlayer [of Leaf ps] buildRanking_descending [of ps]
  by (simp add: buildRanking_def)

text \<open>
  Claim C9 as stated fails in its second half: no insertion sequence containing players
  with equal chip counts yields an in-order traversal that is not sorted in
  non-increasing chip order.
\<close>

theorem C9_no_unsorted_traversal_counterexample:
  "\<not> (\<exists>ps. (\<exists>a \<in> set ps. \<exists>b \<in> set ps. a \<noteq> b \<and> chips a = chips b)
          \<and> \<not> chipsDescending (inOrder (buildRanking ps)))"
  by (simp add: buildRanking_descending)

text \<open>The sample roster with a tie, inserted front to back.\<close>

theorem C9_ranking_tree_sorted_witness:
  "map name (inOrder (buildRanking rosterTie)) = [''Bob'', ''Ann'', ''Cy'', ''Dee'']
   \<and> chipsDescending (inOrder (buildRanking rosterTie))"
  using C9_ranking_tree_sorted [of _ _ _ _ rosterTie]
  by (simp add: buildRanking_def addPlayer_def rosterTie_def Player1_def word_sless_alt)

section \<open>The game loop\<close>

subsection \<open>Running the sample games\<close>

lemma length_Deck0: "length (cards Deck0) = 52"
  by (simp add: Deck0_def suits0_def ranks0_def)

lemma shuffle_idPerm: "shuffle idPerm Deck0 = Deck0"
proof -
  have "map (\<lambda>i. cards Deck0 ! i) [0 ..< length (cards Deck0)] = cards Deck0"
    by (rule map_nth)
  then show ?thesis by (simp add: shuffle_def idPerm_def length_Deck0)
qed

text \<open>The cards at the top of the fresh deck, by numeral and by successor index.\<close>

lemma Deck0_cursor: "topCardIndex Deck0 = 0"
  by (simp add: Deck0_def)

lemma Deck0_top:
  "cards Deck0 ! 0 = Card2 ''2'' ''Hearts''" "cards Deck0 ! Suc 0 = Card2 ''3'' ''Hearts''"
  "cards Deck0 ! 2 = Card2 ''4'' ''Hearts''" "cards Deck0 ! 3 = Card2 ''5'' ''Hearts''"
  "cards Deck0 ! 4 = Card2 ''6'' ''Hearts''" "cards Deck0 ! 5 = Card2 ''7'' ''Hearts''"
  "cards Deck0 ! 6 = Card2 ''8'' ''Hearts''" "cards Deck0 ! 7 = Card2 ''9'' ''Hearts''"
  "cards Deck0 ! 8 = Card2 ''10'' ''Hearts''"
  by (simp_all add: Deck0_def suits0_def ranks0_def Card2_def)

text \<open>Unrolling the loops of the sample game.\<close>

lemma bettingRound_2: "bettingRound 2 g = bettingRound (Suc (Suc 0)) g"
  by (simp add: numeral_2_eq_2)

lemma dealCommunity_3: "dealCommunity 3 g = dealCommunity (Suc (Suc (Suc 0))) g"
  by (simp add: numeral_3_eq_3)

lemmas bot_defs = takeAction_def chooseAction_def rand_def botAction_def envConst_def isBot_def
  Player1_def Card0_def Card2_def evaluateHandStrength_def addScore_def to_string_def
  natToString.simps word_sle_eq word_sless_alt

lemma Deck0_top_Suc:
  "cards Deck0 ! Suc (Suc 0) = Card2 ''4'' ''Hearts''"
  "cards Deck0 ! Suc (Suc (Suc 0)) = Card2 ''5'' ''Hearts''"
  "cards Deck0 ! Suc (Suc (Suc (Suc 0))) = Card2 ''6'' ''Hearts''"
  "cards Deck0 ! Suc (Suc (Suc (Suc (Suc 0)))) = Card2 ''7'' ''Hearts''"
  "cards Deck0 ! Suc (Suc (Suc (Suc (Suc (Suc 0))))) = Card2 ''8'' ''Hearts''"
  using Deck0_top by (simp_all add: eval_nat_numeral)

lemma Suc_7: "Suc (Suc (Suc (Suc (Suc (Suc (Suc 0)))))) = 7" "Suc (Suc (Suc (Suc 0))) = 4"
  by simp_all

lemmas deal_defs = dealCard_def MAX_CARDS_def Deck0_top Deck0_top_Suc Deck0_cursor receiveCard_def

lemma raised0: "roundStart1 idPerm (twoBots 0) = Inr (botsRaised 0)"
  by (simp add: roundStart1_def startHand_def twoBots_def gameLoop_init_def shuffle_idPerm
      deal_defs upt_conv_Cons Suc_7 Player1_def botsRaised_def envConst_def)

lemma pass0: "andThen (bettingPass (botsRaised 0)) (dealCommunity 3) = Inr (botsRaised 1)"
  by (simp add: andThen_def bettingPass_def botsRaised_def bettingRound_2
      dealCommunity_3 bot_defs deal_defs)


lemma pass1: "andThen (bettingPass (botsRaised 1)) (dealCommunity 1) = Inr (botsRaised 2)"
  by (simp add: andThen_def bettingPass_def botsRaised_def bettingRound_2 bot_defs deal_defs)

lemma pass2: "andThen (bettingPass (botsRaised 2)) (dealCommunity 1) = Inr (botsRaised 3)"
  by (simp add: andThen_def bettingPass_def botsRaised_def bettingRound_2 bot_defs deal_defs)

lemma folded_start: "roundStart2 idPerm (twoBots 2) = Inr botsFolded"
  by (simp add: roundStart2_def roundStart1_def startHand_def twoBots_def gameLoop_init_def
      shuffle_idPerm deal_defs upt_conv_Cons Suc_7 Player1_def botsFolded_def
      andThen_def bettingPass_def bettingRound_2 dealCommunity_3 bot_defs)

lemma folded_pass: "bettingPass botsFolded = Inr (botsFolded\<lparr>turnOrder := []\<rparr>)"
  by (simp add: bettingPass_def botsFolded_def bettingRound_2)

subsection \<open>Round state and turn queue\<close>

lemma andThen_Inr: "andThen r f = Inr y \<Longrightarrow> \<exists>x. r = Inr x \<and> f x = Inr y"
  by (cases r) (simp_all add: andThen_def)

lemma dealHole_round: "dealHole is g = Inr g' \<Longrightarrow> round g' = round g"
proof (induction "is" arbitrary: g)
  case Nil
  then show ?case by simp
next
  case (Cons i "is")
  from Cons.prems obtain g1 where "dealHole is g1 = Inr g'" "round g1 = round g"
    by (auto split: if_splits sum.splits prod.splits)
  with Cons.IH show ?case by simp
qed

lemma startHand_round: "startHand perm g = Inr g' \<Longrightarrow> round g' = round g"
  by (auto simp: startHand_def dest: dealHole_round)

lemma dealCommunity_round: "dealCommunity k g = Inr g' \<Longrightarrow> round g' = round g"
proof (induction k arbitrary: g)
  case 0
  then show ?case by simp
next
  case (Suc k)
  show ?case
  proof (cases "communityIndex g < 5")
    case False
    with Suc show ?thesis by simp
  next
    case True
    with Suc.prems obtain g1 where "dealCommunity k g1 = Inr g'" "round g1 = round g"
      by (auto split: sum.splits prod.splits)
    with Suc.IH show ?thesis by simp
  qed
qed

lemma next_round:
  assumes "andThen (andThen r bettingPass) (dealCommunity k) = Inr g'"
  shows "\<exists>g0 gb. r = Inr g0 \<and> bettingPass g0 = Inr gb \<and> round g' = round gb"
proof -
  from andThen_Inr [OF assms] obtain gb where
    gb: "andThen r bettingPass = Inr gb" "dealCommunity k gb = Inr g'" by blast
  from andThen_Inr [OF gb(1)] obtain g0 where "r = Inr g0" "bettingPass g0 = Inr gb" by blast
  with dealCommunity_round [OF gb(2)] show ?thesis by blast
qed

lemma showdown_pot:
  "snd (showdown ps cc n p) = (if \<exists>i < length ps. \<not> folded (ps ! i) then 0 else p)"
proof (cases "findWinner ps cc n 0 (- 1) None")
  case None
  with findWinner_spec [of ps cc n] show ?thesis by (auto simp: showdown_def)
next
  case (Some w)
  with findWinner_spec [of ps cc n] show ?thesis by (auto simp: showdown_def)
qed

text \<open>
  Claim C4, amended. The round state is created once, when the game loop starts: pot and
  current bet are zero and the action history is empty at the start of the first betting
  round of the first hand. It is not created afresh for the later betting rounds of a
  hand: the second, third and fourth betting round start with exactly the pot, current
  bet and action history that the betting round before them left, since dealing
  community cards changes none of them. After the fourth betting round the showdown sets
  the pot to zero when some player of the roster has not folded, and leaves it otherwise.
\<close>

theorem C4_round_state_lifecycle:
  "(roundStart1 perm (gameLoop_init ps n d e) = Inr g1
      \<longrightarrow> round g1 = \<lparr>currentBet = 0, pot = 0, actionHistory = []\<rparr>)
   \<and> (roundStart2 perm g = Inr g2
      \<longrightarrow> (\<exists>g0 gb. roundStart1 perm g = Inr g0 \<and> bettingPass g0 = Inr gb \<and> round g2 = round gb))
   \<and> (roundStart3 perm g = Inr g3
      \<longrightarrow> (\<exists>g0 gb. roundStart2 perm g = Inr g0 \<and> bettingPass g0 = Inr gb \<and> round g3 = round gb))
   \<and> (roundStart4 perm g = Inr g4
      \<longrightarrow> (\<exists>g0 gb. roundStart3 perm g = Inr g0 \<and> bettingPass g0 = Inr gb \<and> round g4 = round gb))
   \<and> pot (round (showdownStep g)) =
       (if \<exists>i < length (roster g). \<not> folded (roster g ! i) then 0 else pot (round g))"
proof -
  have a: "round g1 = \<lparr>currentBet = 0, pot = 0, actionHistory = []\<rparr>"
    if "roundStart1 perm (gameLoop_init ps n d e) = Inr g1"
    using startHand_round [of perm "gameLoop_init ps n d e" g1] that
    by (simp add: roundStart1_def gameLoop_init_def)
  have b: "\<exists>g0 gb. roundStart1 perm g = Inr g0 \<and> bettingPass g0 = Inr gb \<and> round g2 = round gb"
    if "roundStart2 perm g = Inr g2"
    using that unfolding roundStart2_def by (rule next_round)
  have c: "\<exists>g0 gb. roundStart2 perm g = Inr g0 \<and> bettingPass g0 = Inr gb \<and> round g3 = round gb"
    if "roundStart3 perm g = Inr g3"
    using that unfolding roundStart3_def by (rule next_round)
  have d: "\<exists>g0 gb. roundStart3 perm g = Inr g0 \<and> bettingPass g0 = Inr gb \<and> round g4 = round gb"
    if "roundStart4 perm g = Inr g4"
    using that unfolding roundStart4_def by (rule next_round)
  have s: "pot (round (showdownStep g)) =
       (if \<exists>i < length (roster g). \<not> folded (roster g ! i) then 0 else pot (round g))"
  proof -
    obtain ps' pot' where
      sd: "showdown (roster g) (communityCards g) (communityIndex g) (pot (round g)) = (ps', pot')"
      by (cases "showdown (roster g) (communityCards g) (communityIndex g) (pot (round g))")
    then have "pot (round (showdownStep g)) = pot'" by (simp add: showdownStep_def)
    moreover from sd showdown_pot [of "roster g" "communityCards g" "communityIndex g" "pot (round g)"]
    have "pot' = (if \<exists>i < length (roster g). \<not> folded (roster g ! i) then 0 else pot (round g))"
      by simp
    ultimately show ?thesis by simp
  qed
  from a b c d s show ?thesis by blast
qed

text \<open>The sample game in which both players wager 50 chips in every betting round.\<close>

lemma raised_chain:
  "roundStart2 idPerm (twoBots 0) = Inr (botsRaised 1)"
  "roundStart3 idPerm (twoBots 0) = Inr (botsRaised 2)"
  "roundStart4 idPerm (twoBots 0) = Inr (botsRaised 3)"
proof -
  show 2: "roundStart2 idPerm (twoBots 0) = Inr (botsRaised 1)"
    using pass0 by (simp add: roundStart2_def raised0 andThen_def)
  show 3: "roundStart3 idPerm (twoBots 0) = Inr (botsRaised 2)"
    using pass1 by (simp add: roundStart3_def 2 andThen_def)
  show "roundStart4 idPerm (twoBots 0) = Inr (botsRaised 3)"
    using pass2 by (simp add: roundStart4_def 3 andThen_def)
qed

text \<open>In that game the pot grows to 300 over three betting rounds and the showdown
  empties it.\<close>

theorem C4_round_state_lifecycle_witness:
  "roundStart1 idPerm (gameLoop_init [Player1 ''Bot 1'', Player1 ''Bot 2''] 2 Deck0 (envConst 0 []))
     = Inr (botsRaised 0)
   \<and> round (botsRaised 0) = \<lparr>currentBet = 0, pot = 0, actionHistory = []\<rparr>
   \<and> roundStart2 idPerm (twoBots 0) = Inr (botsRaised 1)
   \<and> (\<exists>gb. bettingPass (botsRaised 0) = Inr gb \<and> round (botsRaised 1) = round gb)
   \<and> roundStart3 idPerm (twoBots 0) = Inr (botsRaised 2)
   \<and> (\<exists>gb. bettingPass (botsRaised 1) = Inr gb \<and> round (botsRaised 2) = round gb)
   \<and> roundStart4 idPerm (twoBots 0) = Inr (botsRaised 3)
   \<and> (\<exists>gb. bettingPass (botsRaised 2) = Inr gb \<and> round (botsRaised 3) = round gb)
   \<and> pot (round (botsRaised 3)) = 300
   \<and> pot (round (showdownStep (botsRaised 3))) = 0"
proof -
  have r1: "roundStart1 idPerm (gameLoop_init [Player1 ''Bot 1'', Player1 ''Bot 2''] 2 Deck0
      (envConst 0 [])) = Inr (botsRaised 0)"
    using raised0 by (simp add: twoBots_def)
  have r1': "roundStart1 idPerm (twoBots 0) = Inr (botsRaised 0)" by (rule raised0)
  note T = C4_round_state_lifecycle [of idPerm "[Player1 ''Bot 1'', Player1 ''Bot 2'']" 2 Deck0
      "envConst 0 []" "botsRaised 0" "twoBots 0" "botsRaised 1" "botsRaised 2" "botsRaised 3"]
  from T r1 have fresh: "round (botsRaised 0) = \<lparr>currentBet = 0, pot = 0, actionHistory = []\<rparr>"
    by blast
  from T raised_chain(1) r1'
  have s2: "\<exists>gb. bettingPass (botsRaised 0) = Inr gb \<and> round (botsRaised 1) = round gb"
    by auto
  from T raised_chain(1,2)
  have s3: "\<exists>gb. bettingPass (botsRaised 1) = Inr gb \<and> round (botsRaised 2) = round gb"
    by auto
  from T raised_chain(2,3)
  have s4: "\<exists>gb. bettingPass (botsRaised 2) = Inr gb \<and> round (botsRaised 3) = round gb"
    by auto
  have p3: "pot (round (botsRaised 3)) = 300" by (simp add: botsRaised_def)
  have "0 < length (roster (botsRaised 3)) \<and> \<not> folded (roster (botsRaised 3) ! 0)"
    by (simp add: roster_def botsRaised_def Player1_def)
  then have "\<exists>i < length (roster (botsRaised 3)). \<not> folded (roster (botsRaised 3) ! i)"
    by blast
  with C4_round_state_lifecycle [of _ _ _ _ _ _ "botsRaised 3"]
  have sd: "pot (round (showdownStep (botsRaised 3))) = 0" by simp
  from r1 fresh raised_chain s2 s3 s4 p3 sd show ?thesis by blast
qed

text \<open>
  Claim C4 as stated fails: in the sample game the second betting round of the first hand
  starts with a pot of 100, a current bet of 50 and two entries in the action history.
\<close>

theorem C4_pot_carried_counterexample:
  "roundStart2 idPerm (twoBots 0) = Inr (botsRaised 1)
   \<and> round (botsRaised 1) =
       \<lparr>currentBet = 50, pot = 100,
        actionHistory = [''Bot 1 raises to 50 chips.'', ''Bot 2 bets 50 chips.'']\<rparr>"
  using raised_chain(1) by (simp add: botsRaised_def)

text \<open>
  Claim C3 (a skipped player is put back at the end of the turn queue, so a betting round
  keeps the multiset of queued indices) against the code: in the sample game where both
  players fold in the first betting round, the second betting round dequeues both
  indices and enqueues neither, and the queue is empty afterwards.
\<close>

theorem C3_skipped_players_leave_queue:
  "roundStart2 idPerm (twoBots 2) = Inr botsFolded
   \<and> turnOrder botsFolded = [0, 1]
   \<and> map folded (players botsFolded) = [True, True]
   \<and> bettingPass botsFolded = Inr (botsFolded\<lparr>turnOrder := []\<rparr>)
   \<and> mset (turnOrder (botsFolded\<lparr>turnOrder := []\<rparr>)) \<noteq> mset (turnOrder botsFolded)"
  using folded_start folded_pass by (simp add: botsFolded_def)

end
